theory Spec2Isabelle
  imports Complex_Main "HOL-Library.Word"
begin

section \<open>Visual regression comparison engine (tests/visual-compare)\<close>

text \<open>
  The three scripts \<^verbatim>\<open>compare-screenshots.ts\<close>, \<^verbatim>\<open>compare.ts\<close> and
  \<^verbatim>\<open>compare_optimized.ts\<close> each carry their own \<^verbatim>\<open>padImage\<close> and
  \<^verbatim>\<open>compareScreenshots\<close>. The definitions keep the source's names; the suffix
  \<open>_cs\<close> marks the version of \<^verbatim>\<open>compare-screenshots.ts\<close>, the suffix \<open>_compare\<close> the
  version of \<^verbatim>\<open>compare.ts\<close>, and the unsuffixed names are those of the first script in
  \<^verbatim>\<open>compare_optimized.ts\<close>.
\<close>

subsection \<open>Values\<close>

type_synonym byte = "8 word"

text \<open>Everything the scripts can throw or catch.\<close>

datatype error =
    UnsupportedFormat
  | DimensionMismatch
  | NavigationTimeout
  | NavigationError
  | ScreenshotError
  | Error string

text \<open>
  A JavaScript \<^verbatim>\<open>number\<close> as far as the scripts produce one: a finite value, an
  infinity or \<^verbatim>\<open>NaN\<close>. Finite values are rationals: rounding of doubles is not modelled.
\<close>

datatype number = Num rat | PosInfinity | NegInfinity | NaN

text \<open>\<^verbatim>\<open>a / n\<close> for a finite \<open>a\<close> and an array length \<open>n\<close>.\<close>

definition divide_number :: "rat \<Rightarrow> nat \<Rightarrow> number" where
  "divide_number a n =
     (if n = 0 then (if a = 0 then NaN else if 0 < a then PosInfinity else NegInfinity)
      else Num (a / of_nat n))"

text \<open>A non-negative integer, as the data model asks of a pixel count.\<close>

definition nonNegativeInteger :: "number \<Rightarrow> bool" where
  "nonNegativeInteger v =
     (case v of Num q \<Rightarrow> 0 \<le> q \<and> of_int \<lfloor>q\<rfloor> = q | _ \<Rightarrow> False)"

text \<open>\<^verbatim>\<open>interface ImageData { width; height; data: Buffer }\<close>, RGBA, row-major.\<close>

record RawImage =
  width :: nat
  height :: nat
  data :: "byte list"

definition wellFormed :: "RawImage \<Rightarrow> bool" where
  "wellFormed img = (length (data img) = width img * height img * 4)"

subsection \<open>Buffers\<close>

text \<open>
  \<^verbatim>\<open>buf[i]\<close> read to be stored into another buffer: an index out of range reads
  \<^verbatim>\<open>undefined\<close>, which a buffer stores as 0.
\<close>

definition bufGet :: "byte list \<Rightarrow> int \<Rightarrow> byte" where
  "bufGet buf i = (if 0 \<le> i \<and> i < int (length buf) then buf ! nat i else 0)"

text \<open>\<^verbatim>\<open>buf[i] = v\<close>: a write outside the buffer is ignored.\<close>

definition bufSet :: "byte list \<Rightarrow> int \<Rightarrow> byte \<Rightarrow> byte list" where
  "bufSet buf i v = (if 0 \<le> i \<and> i < int (length buf) then buf[nat i := v] else buf)"

text \<open>\<^verbatim>\<open>k << 2\<close>: the operand is taken as a 32-bit integer and the result is signed.\<close>

definition shl2 :: "int \<Rightarrow> int" where
  "shl2 k = sint (push_bit 2 (word_of_int k :: 32 word))"

text \<open>The four assignments \<^verbatim>\<open>dst[d + c] = src[s + c]\<close>, \<open>c = 0..3\<close>.\<close>

definition copyPixel :: "byte list \<Rightarrow> int \<Rightarrow> int \<Rightarrow> byte list \<Rightarrow> byte list" where
  "copyPixel src s d dst =
     bufSet (bufSet (bufSet (bufSet dst d (bufGet src s))
       (d + 1) (bufGet src (s + 1))) (d + 2) (bufGet src (s + 2))) (d + 3) (bufGet src (s + 3))"

text \<open>The four assignments \<^verbatim>\<open>dst[d + c] = 255\<close>.\<close>

definition whitePixel :: "int \<Rightarrow> byte list \<Rightarrow> byte list" where
  "whitePixel d dst = bufSet (bufSet (bufSet (bufSet dst d 255) (d + 1) 255) (d + 2) 255) (d + 3) 255"

text \<open>
  \<^verbatim>\<open>new PNG({ width, height })\<close> and \<^verbatim>\<open>new PNG({ width, height, fill: true })\<close> of the
  pngjs library, which is not part of the repository: the constructor allocates
  \<open>4 * width * height\<close> zero bytes (\<^verbatim>\<open>Buffer.alloc\<close>), and leaves \<^verbatim>\<open>data\<close> null when
  a dimension is 0; the option \<^verbatim>\<open>fill\<close> fills the buffer with 0 again. Where the scripts
  want a white canvas they write 255 themselves: the loops of the first \<^verbatim>\<open>padImage\<close> of
  \<^verbatim>\<open>compare_optimized.ts\<close>, \<^verbatim>\<open>padded.data.fill(255)\<close> after \<^verbatim>\<open>fill: true\<close> in the second.
\<close>

definition newPNG :: "nat \<Rightarrow> nat \<Rightarrow> byte list option" where
  "newPNG w h = (if 0 < w \<and> 0 < h then Some (replicate (4 * w * h) 0) else None)"

text \<open>The channels of the pixel in column \<open>x\<close> and row \<open>y\<close> of an image.\<close>

definition pixelAt :: "RawImage \<Rightarrow> nat \<Rightarrow> nat \<Rightarrow> byte list" where
  "pixelAt img x y = take 4 (drop (4 * (width img * y + x)) (data img))"

definition white :: "byte list" where
  "white = [255, 255, 255, 255]"

subsection \<open>padImage\<close>

text \<open>
  \<^verbatim>\<open>compare_optimized.ts\<close>, \<^verbatim>\<open>padImage\<close>: the image itself when the dimensions match;
  otherwise a new PNG, every pixel set to white by the first pair of loops, the source
  copied to the top-left corner by the second.
\<close>

definition fillWhite :: "nat \<Rightarrow> nat \<Rightarrow> byte list \<Rightarrow> byte list" where
  "fillWhite targetWidth targetHeight buf =
     foldl (\<lambda>b y. foldl (\<lambda>b x. whitePixel (shl2 (int targetWidth * int y + int x)) b)
                     b [0..<targetWidth])
       buf [0..<targetHeight]"

definition copyOnto :: "RawImage \<Rightarrow> nat \<Rightarrow> nat \<Rightarrow> byte list \<Rightarrow> byte list" where
  "copyOnto img targetWidth targetHeight buf =
     foldl (\<lambda>b y. foldl (\<lambda>b x.
                if x < targetWidth \<and> y < targetHeight
                then copyPixel (data img) (shl2 (int (width img) * int y + int x))
                       (shl2 (int targetWidth * int y + int x)) b
                else b)
              b [0..<width img])
       buf [0..<height img]"

definition padImage :: "RawImage \<Rightarrow> nat \<Rightarrow> nat \<Rightarrow> error + RawImage" where
  "padImage img targetWidth targetHeight =
     (if width img = targetWidth \<and> height img = targetHeight then Inr img
      else case newPNG targetWidth targetHeight of
             None \<Rightarrow> Inl (Error ''Failed to create PNG buffer'')
           | Some padded \<Rightarrow>
               Inr \<lparr>width = targetWidth, height = targetHeight,
                    data = copyOnto img targetWidth targetHeight
                             (fillWhite targetWidth targetHeight padded)\<rparr>)"

text \<open>
  \<^verbatim>\<open>compare-screenshots.ts\<close>, \<^verbatim>\<open>padImage\<close>: \<^verbatim>\<open>Buffer.alloc(n, 255)\<close>, the source
  copied to the centre. The indices are plain products (no shift).
\<close>

definition padImage_cs :: "RawImage \<Rightarrow> nat \<Rightarrow> nat \<Rightarrow> RawImage" where
  "padImage_cs img targetWidth targetHeight =
     (if width img = targetWidth \<and> height img = targetHeight then img
      else
        let offsetX = (int targetWidth - int (width img)) div 2;
            offsetY = (int targetHeight - int (height img)) div 2
        in \<lparr>width = targetWidth, height = targetHeight,
            data = foldl (\<lambda>b y. foldl (\<lambda>b x.
                       copyPixel (data img) ((int y * int (width img) + int x) * 4)
                         (((int y + offsetY) * int targetWidth + (int x + offsetX)) * 4) b)
                     b [0..<width img])
                   (replicate (targetWidth * targetHeight * 4) 255) [0..<height img]\<rparr>)"

text \<open>
  \<^verbatim>\<open>compare.ts\<close>, \<^verbatim>\<open>padImage\<close>: no shortcut for equal dimensions, a PNG created with
  \<^verbatim>\<open>fill: true\<close> and nothing else written to it before the source is copied to the
  centre. Writing to the null \<^verbatim>\<open>data\<close> of an empty PNG is a TypeError.
\<close>

definition padImage_compare :: "RawImage \<Rightarrow> nat \<Rightarrow> nat \<Rightarrow> error + RawImage" where
  "padImage_compare img targetWidth targetHeight =
     (let x = (int targetWidth - int (width img)) div 2;
          y = (int targetHeight - int (height img)) div 2
      in case newPNG targetWidth targetHeight of
           None \<Rightarrow>
             (if 0 < width img \<and> 0 < height img
              then Inl (Error ''TypeError: Cannot set properties of null'')
              else Inr \<lparr>width = targetWidth, height = targetHeight, data = []\<rparr>)
         | Some padded \<Rightarrow>
             Inr \<lparr>width = targetWidth, height = targetHeight,
                  data = foldl (\<lambda>b i. foldl (\<lambda>b j.
                             copyPixel (data img) (shl2 (int i * int (width img) + int j))
                               (shl2 ((int i + y) * int targetWidth + (int j + x))) b)
                           b [0..<width img])
                         padded [0..<height img]\<rparr>)"

subsection \<open>The pixel differ\<close>

text \<open>The RGBA pixels of a buffer, four bytes each.\<close>

fun pixels :: "byte list \<Rightarrow> byte list list" where
  "pixels (r # g # b # a # rest) = [r, g, b, a] # pixels rest"
| "pixels _ = []"

text \<open>
  Modelled from the spec: the per-channel color distance of section 4.2 (part of the
  pixelmatch library, not under src/), the absolute difference of the two channel values.
\<close>

definition channelDistance :: "byte \<Rightarrow> byte \<Rightarrow> nat" where
  "channelDistance a b = (if unat a \<le> unat b then unat b - unat a else unat a - unat b)"

text \<open>
  Modelled from the spec: when a pixel counts as different (section 4.2; part of the
  pixelmatch library, not under src/). The threshold in \<open>[0, 1]\<close> is the tolerated share
  of the channel range 255.
\<close>

definition pixelDiffers :: "rat \<Rightarrow> byte list \<Rightarrow> byte list \<Rightarrow> bool" where
  "pixelDiffers threshold p q =
     list_ex (\<lambda>(a, b). threshold * 255 < of_nat (channelDistance a b)) (zip p q)"

text \<open>
  Modelled from the spec: the pixel differ of section 4.2, which the scripts call as
  \<^verbatim>\<open>pixelmatch(img1, img2, output, width, height, { threshold })\<close> from the pixelmatch
  library; the library is not under src/. Following the spec, the call fails with
  \<open>DimensionMismatch\<close> unless both buffers hold \<open>width * height\<close> RGBA pixels, a pixel
  counts as different when the distance in one of its channels exceeds the share
  \<open>threshold\<close> of the channel range, and the result is the exact number of such pixels.
  The diff image written to \<^verbatim>\<open>output\<close> is left out.
\<close>

definition pixelmatch :: "byte list \<Rightarrow> byte list \<Rightarrow> nat \<Rightarrow> nat \<Rightarrow> rat \<Rightarrow> error + nat" where
  "pixelmatch img1 img2 w h threshold =
     (if length img1 \<noteq> length img2 \<or> length img1 \<noteq> w * h * 4 then Inl DimensionMismatch
      else Inr (length (filter (\<lambda>(p, q). pixelDiffers threshold p q)
                          (zip (pixels img1) (pixels img2)))))"

subsection \<open>compareScreenshots\<close>

text \<open>
  Reading and decoding a screenshot file and writing the diff image are the file system's
  and the codecs' business: each \<^verbatim>\<open>compareScreenshots\<close> takes the outcome of decoding
  the first and the second file (\<open>Inl\<close> what was thrown) and the outcome of writing the
  diff image (\<open>Some\<close> what was thrown).
\<close>

text \<open>\<^verbatim>\<open>diffPath.replace(/\.png$/, '.jpg')\<close>.\<close>

definition replacePng :: "string \<Rightarrow> string" where
  "replacePng p =
     (if 4 \<le> length p \<and> drop (length p - 4) p = ''.png''
      then take (length p - 4) p @ ''.jpg'' else p)"

text \<open>
  The operands \<^verbatim>\<open>compare_optimized.ts\<close> hands to the differ: both images padded to the
  larger width and the larger height.
\<close>

definition pixelmatchArgs ::
  "RawImage \<Rightarrow> RawImage \<Rightarrow> error + (byte list \<times> byte list \<times> nat \<times> nat)" where
  "pixelmatchArgs img1 img2 =
     (let w = max (width img1) (width img2);
          h = max (height img1) (height img2)
      in case padImage img1 w h of
           Inl e \<Rightarrow> Inl e
         | Inr padded1 \<Rightarrow>
             (case padImage img2 w h of
                Inl e \<Rightarrow> Inl e
              | Inr padded2 \<Rightarrow> Inr (data padded1, data padded2, w, h)))"

definition compareScreenshots ::
  "error + RawImage \<Rightarrow> error + RawImage \<Rightarrow> error option \<Rightarrow> string \<Rightarrow> error + (nat \<times> string)" where
  "compareScreenshots read1 read2 written diffPath =
     (case read1 of
        Inl e \<Rightarrow> Inl e
      | Inr img1 \<Rightarrow>
     (case read2 of
        Inl e \<Rightarrow> Inl e
      | Inr img2 \<Rightarrow>
     (case pixelmatchArgs img1 img2 of
        Inl e \<Rightarrow> Inl e
      | Inr (d1, d2, w, h) \<Rightarrow>
     (case pixelmatch d1 d2 w h (1 / 10) of
        Inl e \<Rightarrow> Inl e
      | Inr numDiffPixels \<Rightarrow>
     (case written of
        Some e \<Rightarrow> Inl e
      | None \<Rightarrow> Inr (numDiffPixels, replacePng diffPath))))))"

text \<open>The object \<^verbatim>\<open>{ isDifferent, diffPixels }\<close> of the two other scripts.\<close>

record Comparison =
  isDifferent :: bool
  diffPixels :: number

text \<open>
  \<^verbatim>\<open>compare-screenshots.ts\<close>: both images padded (centred); the \<^verbatim>\<open>try\<close> block first,
  then the function with its \<^verbatim>\<open>catch\<close>. The diff image is written only when the images
  differ.
\<close>

definition pixelmatchArgs_cs ::
  "RawImage \<Rightarrow> RawImage \<Rightarrow> byte list \<times> byte list \<times> nat \<times> nat" where
  "pixelmatchArgs_cs img1 img2 =
     (let maxWidth = max (width img1) (width img2);
          maxHeight = max (height img1) (height img2)
      in (data (padImage_cs img1 maxWidth maxHeight),
          data (padImage_cs img2 maxWidth maxHeight), maxWidth, maxHeight))"

definition tryCompare_cs ::
  "error + RawImage \<Rightarrow> error + RawImage \<Rightarrow> error option \<Rightarrow> error + nat" where
  "tryCompare_cs read1 read2 written =
     (case read1 of
        Inl e \<Rightarrow> Inl e
      | Inr img1 \<Rightarrow>
     (case read2 of
        Inl e \<Rightarrow> Inl e
      | Inr img2 \<Rightarrow>
     (case pixelmatchArgs_cs img1 img2 of (d1, d2, w, h) \<Rightarrow>
     (case pixelmatch d1 d2 w h (1 / 10) of
        Inl e \<Rightarrow> Inl e
      | Inr n \<Rightarrow>
          (if 0 < n then (case written of Some e \<Rightarrow> Inl e | None \<Rightarrow> Inr n)
           else Inr n)))))"

definition compareScreenshots_cs ::
  "error + RawImage \<Rightarrow> error + RawImage \<Rightarrow> error option \<Rightarrow> Comparison" where
  "compareScreenshots_cs read1 read2 written =
     (case tryCompare_cs read1 read2 written of
        Inr n \<Rightarrow> \<lparr>isDifferent = 0 < n, diffPixels = Num (of_nat n)\<rparr>
      | Inl e \<Rightarrow> \<lparr>isDifferent = True, diffPixels = PosInfinity\<rparr>)"

text \<open>
  \<^verbatim>\<open>compare.ts\<close>: the larger width and height are computed, and the two decoded
  buffers go to the differ as they are; \<^verbatim>\<open>padImage\<close> is not called.
\<close>

definition pixelmatchArgs_compare ::
  "RawImage \<Rightarrow> RawImage \<Rightarrow> byte list \<times> byte list \<times> nat \<times> nat" where
  "pixelmatchArgs_compare img1 img2 =
     (data img1, data img2, max (width img1) (width img2), max (height img1) (height img2))"

definition tryCompare_compare ::
  "error + RawImage \<Rightarrow> error + RawImage \<Rightarrow> error option \<Rightarrow> error + nat" where
  "tryCompare_compare read1 read2 written =
     (case read1 of
        Inl e \<Rightarrow> Inl e
      | Inr img1 \<Rightarrow>
     (case read2 of
        Inl e \<Rightarrow> Inl e
      | Inr img2 \<Rightarrow>
     (case pixelmatchArgs_compare img1 img2 of (d1, d2, w, h) \<Rightarrow>
     (case pixelmatch d1 d2 w h (1 / 10) of
        Inl e \<Rightarrow> Inl e
      | Inr n \<Rightarrow> (case written of Some e \<Rightarrow> Inl e | None \<Rightarrow> Inr n)))))"

definition compareScreenshots_compare ::
  "error + RawImage \<Rightarrow> error + RawImage \<Rightarrow> error option \<Rightarrow> Comparison" where
  "compareScreenshots_compare read1 read2 written =
     (case tryCompare_compare read1 read2 written of
        Inr n \<Rightarrow> \<lparr>isDifferent = 0 < n, diffPixels = Num (of_nat n)\<rparr>
      | Inl e \<Rightarrow> \<lparr>isDifferent = True, diffPixels = Num 0\<rparr>)"

subsection \<open>The loop of main in compare.ts\<close>

text \<open>
  \<^verbatim>\<open>interface ScreenshotResult\<close>: the two fields \<^verbatim>\<open>compareScreenshots\<close> returns and
  the fields \<^verbatim>\<open>main\<close> adds to them. An absent path is the empty string the loop starts
  from.
\<close>

datatype Environment = Dev | Prod | Both

record ScreenshotResult = Comparison +
  url :: string
  devPath :: string
  prodPath :: string
  diffPath :: string
  environment :: Environment
  error :: "string option"

text \<open>
  What happens around one URL: the two readings of the clock that name the screenshots
  (in decimal), whether \<^verbatim>\<open>ensureLoggedInAndNavigate\<close> returned true for the dev and for
  the prod page, what \<^verbatim>\<open>page.screenshot\<close> threw inside \<^verbatim>\<open>captureScreenshot\<close> (\<open>None\<close>
  when it wrote the file), what \<^verbatim>\<open>fs.existsSync\<close> answers for the two paths afterwards,
  and what \<^verbatim>\<open>compareScreenshots\<close> meets.
\<close>

record urlEnv =
  devStamp :: string
  devNavigated :: bool
  prodStamp :: string
  prodNavigated :: bool
  devScreenshot :: "error option"
  prodScreenshot :: "error option"
  devShotExists :: bool
  prodShotExists :: bool
  devImage :: "error + RawImage"
  prodImage :: "error + RawImage"
  diffWritten :: "error option"

definition toLowerCase :: "string \<Rightarrow> string" where
  "toLowerCase s =
     map (\<lambda>c. if c \<in> set ''ABCDEFGHIJKLMNOPQRSTUVWXYZ''
              then char_of (of_char c + 32 :: nat) else c) s"

definition alphanumeric :: "char \<Rightarrow> bool" where
  "alphanumeric c =
     (c \<in> set (''abcdefghijklmnopqrstuvwxyz'' @ ''ABCDEFGHIJKLMNOPQRSTUVWXYZ'' @ ''0123456789''))"

text \<open>
  \<^verbatim>\<open>path.join(config.diffDir, `diff-${url.replace(/[^a-z0-9]/gi, '_').toLowerCase()}.png`)\<close>
  with \<^verbatim>\<open>diffDir = './test-results/diff'\<close>; \<^verbatim>\<open>path.join\<close> drops the leading \<^verbatim>\<open>./\<close>.
\<close>

definition diffPathOf :: "string \<Rightarrow> string" where
  "diffPathOf u =
     ''test-results/diff/diff-'' @
     toLowerCase (map (\<lambda>c. if alphanumeric c then c else CHR ''_'') u) @ ''.png''"

text \<open>
  \<^verbatim>\<open>captureScreenshot\<close>: \<^verbatim>\<open>true\<close> after \<^verbatim>\<open>page.screenshot\<close> wrote the file,
  \<^verbatim>\<open>false\<close> when it threw (the error is logged).
\<close>

definition captureScreenshot :: "error option \<Rightarrow> bool" where
  "captureScreenshot thrown = (case thrown of None \<Rightarrow> True | Some e \<Rightarrow> False)"

text \<open>
  The body of \<^verbatim>\<open>for (const { url, environment } of urls)\<close>: the result starts with
  \<^verbatim>\<open>isDifferent: false, diffPixels: 0\<close>; a page that cannot be navigated to leaves a
  message in \<^verbatim>\<open>error\<close>, while the boolean of \<^verbatim>\<open>await captureScreenshot(...)\<close> is not
  read; the comparison runs only when both paths are set and both files exist, and only
  then are \<^verbatim>\<open>isDifferent\<close> and \<^verbatim>\<open>diffPixels\<close> assigned. The functions called catch
  their own errors, so the \<^verbatim>\<open>catch\<close> of the loop is not reached.
\<close>

definition mainLoop_compare :: "string \<Rightarrow> Environment \<Rightarrow> urlEnv \<Rightarrow> ScreenshotResult" where
  "mainLoop_compare u e env =
     (let result = \<lparr>isDifferent = False, diffPixels = Num 0, url = u, devPath = '''',
                     prodPath = '''', diffPath = '''', environment = e, error = None\<rparr>;
          result =
            (if e = Dev \<or> e = Both then
               (let result = result\<lparr>devPath :=
                               ''test-results/screenshots/dev_'' @ devStamp env @ ''.png''\<rparr>
                in if devNavigated env
                   then (let captured = captureScreenshot (devScreenshot env) in result)
                   else result\<lparr>error := Some ''Failed to navigate to dev URL''\<rparr>)
             else result);
          result =
            (if e = Prod \<or> e = Both then
               (let result = result\<lparr>prodPath :=
                               ''test-results/screenshots/prod_'' @ prodStamp env @ ''.png''\<rparr>
                in if prodNavigated env
                   then (let captured = captureScreenshot (prodScreenshot env) in result)
                   else result\<lparr>error :=
                          (case error result of
                             Some msg \<Rightarrow> Some (msg @ ''; Failed to navigate to prod URL'')
                           | None \<Rightarrow> Some ''Failed to navigate to prod URL'')\<rparr>)
             else result)
      in if devPath result \<noteq> '''' \<and> prodPath result \<noteq> '''' \<and>
            devShotExists env \<and> prodShotExists env
         then (let comparison =
                     compareScreenshots_compare (devImage env) (prodImage env) (diffWritten env)
               in result\<lparr>diffPath := diffPathOf u,
                         isDifferent := isDifferent comparison,
                         diffPixels := diffPixels comparison\<rparr>)
         else result)"

text \<open>
  The status the report and the summary of \<^verbatim>\<open>compare.ts\<close> derive from a result:
  \<^verbatim>\<open>r.error ? 'error' : (r.isDifferent ? 'failed' : 'passed')\<close>; an empty message is
  falsy.
\<close>

datatype status = Passed | Failed | Errored

definition statusOf :: "ScreenshotResult \<Rightarrow> status" where
  "statusOf r =
     (case error r of
        Some msg \<Rightarrow> (if msg = '''' then (if isDifferent r then Failed else Passed) else Errored)
      | None \<Rightarrow> (if isDifferent r then Failed else Passed))"

subsection \<open>One task: capture both pages and compare, at most three times\<close>

record ScreenshotPaths =
  dev :: string
  prod :: string
  diff :: string

record ComparisonResult =
  url :: string
  match :: bool
  numDiffPixels :: nat
  devPath :: string
  prodPath :: string
  diffPath :: string
  duration :: rat

text \<open>
  The field \<^verbatim>\<open>diffPixels\<close> of \<^verbatim>\<open>ComparisonResult\<close> is \<open>numDiffPixels\<close> here (the name
  \<open>diffPixels\<close> is taken by the record above); it holds what \<^verbatim>\<open>pixelmatch\<close> returned.
\<close>

text \<open>\<^verbatim>\<open>\W\<close> is every character but letters, digits and the underscore.\<close>

definition wordChar :: "char \<Rightarrow> bool" where
  "wordChar c =
     (c \<in> set (''abcdefghijklmnopqrstuvwxyz'' @ ''ABCDEFGHIJKLMNOPQRSTUVWXYZ'' @ ''0123456789_''))"

text \<open>\<^verbatim>\<open>urlPath.replace(/\W+/g, '_')\<close>: each run of other characters becomes one underscore.\<close>

function cleanName :: "string \<Rightarrow> string" where
  "cleanName [] = []"
| "cleanName (c # cs) =
     (if wordChar c then c # cleanName cs
      else CHR ''_'' # cleanName (dropWhile (\<lambda>c. \<not> wordChar c) cs))"
  by pat_completeness auto
termination
  by (relation "measure length") (auto simp: length_dropWhile_le less_Suc_eq_le)

definition screenshotDir :: string where
  "screenshotDir = ''screenshots''"

text \<open>
  The paths of a task. The second script names the diff image \<^verbatim>\<open>_diff.png\<close> and
  \<^verbatim>\<open>compareScreenshots\<close> turns the suffix into \<^verbatim>\<open>.jpg\<close>: the same path in the end.
\<close>

definition pathsOf :: "string \<Rightarrow> ScreenshotPaths" where
  "pathsOf urlPath =
     \<lparr>dev = screenshotDir @ ''/dev/'' @ cleanName urlPath @ ''.jpg'',
      prod = screenshotDir @ ''/prod/'' @ cleanName urlPath @ ''.jpg'',
      diff = screenshotDir @ ''/diff/'' @ cleanName urlPath @ ''_diff.jpg''\<rparr>"

text \<open>
  What the browser, the file system and the clock do during one attempt:
  \<^verbatim>\<open>browser.newPage()\<close> (before the \<^verbatim>\<open>try\<close>), the two \<^verbatim>\<open>captureScreenshot\<close> calls,
  the decoding of the two screenshots, the writing of the diff image and the
  \<^verbatim>\<open>Date.now()\<close> read once the comparison is done. Closing the tab and logging are
  taken to succeed.
\<close>

record attemptEnv =
  newPage :: "error option"
  captureDev :: "error option"
  captureProd :: "error option"
  readDev :: "error + RawImage"
  readProd :: "error + RawImage"
  writeDiff :: "error option"
  now :: int

text \<open>
  The world of a run: the three readings of the clock in \<^verbatim>\<open>main\<close> (at its start,
  once the browser is closed, and when the summary is built), the clock at the start of
  each task, and the environment of each attempt of each task. Tasks are numbered by
  their position in the list of URLs, attempts from 1.
\<close>

record world =
  mainStarted :: int
  browserClosed :: int
  summaryBuilt :: int
  taskStartTime :: "nat \<Rightarrow> int"
  attemptOf :: "nat \<Rightarrow> nat \<Rightarrow> attemptEnv"

text \<open>The body of the \<^verbatim>\<open>try\<close> block up to the comparison.\<close>

definition tryAttempt :: "attemptEnv \<Rightarrow> ScreenshotPaths \<Rightarrow> error + (nat \<times> string)" where
  "tryAttempt env paths =
     (case captureDev env of
        Some e \<Rightarrow> Inl e
      | None \<Rightarrow>
     (case captureProd env of
        Some e \<Rightarrow> Inl e
      | None \<Rightarrow> compareScreenshots (readDev env) (readProd env) (writeDiff env) (diff paths)))"

text \<open>
  The loop \<^verbatim>\<open>for (let attempt = 1; attempt <= 3; attempt++)\<close> of a task. The task's
  promise is rejected (\<open>Inl\<close>) only by \<^verbatim>\<open>browser.newPage()\<close>; what the \<^verbatim>\<open>try\<close> block
  throws is caught, and after the third failure the task returns \<^verbatim>\<open>null\<close> (\<open>None\<close>).
\<close>

function attempts :: "world \<Rightarrow> nat \<Rightarrow> string \<Rightarrow> nat \<Rightarrow> error + ComparisonResult option" where
  "attempts w i urlPath attempt =
     (if attempt \<le> 3 then
        (case newPage (attemptOf w i attempt) of
           Some e \<Rightarrow> Inl e
         | None \<Rightarrow>
             (case tryAttempt (attemptOf w i attempt) (pathsOf urlPath) of
                Inr (n, diffJpgPath) \<Rightarrow>
                  Inr (Some \<lparr>url = urlPath, match = (n = 0), numDiffPixels = n,
                             devPath = dev (pathsOf urlPath), prodPath = prod (pathsOf urlPath),
                             diffPath = diffJpgPath,
                             duration = of_int (now (attemptOf w i attempt) - taskStartTime w i) / 1000\<rparr>)
              | Inl e \<Rightarrow> (if attempt = 3 then Inr None else attempts w i urlPath (attempt + 1))))
      else Inr None)"
  by pat_completeness auto
termination
  by (relation "measure (\<lambda>(w, i, urlPath, attempt). 4 - attempt)") auto

declare attempts.simps [simp del]

definition task :: "world \<Rightarrow> nat \<Rightarrow> string \<Rightarrow> error + ComparisonResult option" where
  "task w i urlPath = attempts w i urlPath 1"

text \<open>\<^verbatim>\<open>urls.map(urlPath => async () => ...)\<close>: each task with what its promise settles to.\<close>

definition tasksOf :: "world \<Rightarrow> string list \<Rightarrow> (error + ComparisonResult option) list" where
  "tasksOf w urls = map (\<lambda>(i, urlPath). task w i urlPath) (enumerate 0 urls)"

subsection \<open>runWithConcurrencyLimit\<close>

text \<open>
  The function is asynchronous: between two of its steps any started task may settle.
  A run is a list of events, \<open>Resume\<close> for the next step of the function itself (one
  iteration of the \<^verbatim>\<open>for\<close> loop, or leaving the loop for \<^verbatim>\<open>Promise.all\<close>) and \<open>Settle i\<close>
  for the promise of task \<open>i\<close> settling. A task is given by what its promise settles to:
  \<open>Inr\<close> a value, \<open>Inl\<close> a rejection. Promise \<open>i\<close> is the \<^verbatim>\<open>p\<close> of iteration \<open>i\<close>.
\<close>

datatype variant = First | Second

datatype ('e, 'r) promise = Pending | Fulfilled 'r | Rejected 'e

datatype ('e, 'r) phase = Looping | Awaiting | Joining | Returned "'r list" | Thrown 'e

record ('e, 'r) sched =
  started :: nat
  results :: "nat list"
  executing :: "nat list"
  promises :: "('e, 'r) promise list"
  phase :: "('e, 'r) phase"

datatype event = Resume | Settle nat

definition init :: "('e, 'r) sched" where
  "init = \<lparr>started = 0, results = [], executing = [], promises = [], phase = Looping\<rparr>"

text \<open>
  \<^verbatim>\<open>executing.splice(executing.indexOf(p), 1)\<close> in the first script; the second adds
  the guard \<^verbatim>\<open>if (idx >= 0)\<close>. \<^verbatim>\<open>splice(-1, 1)\<close> removes the last element.
\<close>

definition splice :: "variant \<Rightarrow> nat \<Rightarrow> nat list \<Rightarrow> nat list" where
  "splice v p ex =
     (if p \<in> set ex then remove1 p ex
      else (case v of First \<Rightarrow> butlast ex | Second \<Rightarrow> ex))"

text \<open>
  \<^verbatim>\<open>await Promise.race(executing)\<close>: the first promise of the array that has settled
  already decides at once; otherwise the function waits.
\<close>

definition awaitRace :: "('e, 'r) sched \<Rightarrow> ('e, 'r) sched" where
  "awaitRace s =
     (case find (\<lambda>i. promises s ! i \<noteq> Pending) (executing s) of
        None \<Rightarrow> s\<lparr>phase := Awaiting\<rparr>
      | Some i \<Rightarrow>
          (case promises s ! i of
             Rejected e \<Rightarrow> s\<lparr>phase := Thrown e\<rparr>
           | _ \<Rightarrow> s\<lparr>phase := Looping\<rparr>))"

definition fulfilledValue :: "('e, 'r) promise \<Rightarrow> 'r option" where
  "fulfilledValue p = (case p of Fulfilled r \<Rightarrow> Some r | _ \<Rightarrow> None)"

definition rejected :: "('e, 'r) promise \<Rightarrow> bool" where
  "rejected p = (case p of Rejected e \<Rightarrow> True | _ \<Rightarrow> False)"

text \<open>
  \<^verbatim>\<open>return Promise.all(results)\<close>: rejected by the first rejected promise, fulfilled
  with the values in the order of the array once every promise is fulfilled.
\<close>

definition promiseAll :: "('e, 'r) sched \<Rightarrow> ('e, 'r) sched" where
  "promiseAll s =
     (case find (\<lambda>i. rejected (promises s ! i)) (results s) of
        Some i \<Rightarrow> (case promises s ! i of Rejected e \<Rightarrow> s\<lparr>phase := Thrown e\<rparr> | _ \<Rightarrow> s)
      | None \<Rightarrow>
          (if list_all (\<lambda>i. promises s ! i \<noteq> Pending) (results s)
           then s\<lparr>phase := Returned (List.map_filter (\<lambda>i. fulfilledValue (promises s ! i)) (results s))\<rparr>
           else s\<lparr>phase := Joining\<rparr>))"

text \<open>One iteration of the loop: call the task, push its promise twice, wait if the pool is full.\<close>

definition dispatch :: "int \<Rightarrow> ('e, 'r) sched \<Rightarrow> ('e, 'r) sched" where
  "dispatch limit s =
     (let s' = s\<lparr>started := started s + 1,
                 results := results s @ [started s],
                 executing := executing s @ [started s],
                 promises := promises s @ [Pending]\<rparr>
      in if limit \<le> int (length (executing s')) then awaitRace s' else s')"

text \<open>
  Promise \<open>i\<close> settles. When the task's promise is fulfilled the \<^verbatim>\<open>then\<close> callback
  removes \<open>p\<close> from \<open>executing\<close> and \<open>p\<close> is fulfilled with the same value; when it is
  rejected the callback is skipped and \<open>p\<close> is rejected. A function waiting in
  \<^verbatim>\<open>Promise.race\<close> on \<open>p\<close> goes on or throws; one waiting in \<^verbatim>\<open>Promise.all\<close> throws,
  or returns if \<open>p\<close> was the last one pending.
\<close>

definition settle :: "variant \<Rightarrow> ('e + 'r) list \<Rightarrow> nat \<Rightarrow> ('e, 'r) sched \<Rightarrow> ('e, 'r) sched" where
  "settle v tasks i s =
     (if i < started s \<and> i < length tasks \<and> promises s ! i = Pending then
        (case tasks ! i of
           Inr r \<Rightarrow>
             (let s' = s\<lparr>executing := splice v i (executing s),
                         promises := (promises s)[i := Fulfilled r]\<rparr>
              in if phase s = Awaiting \<and> i \<in> set (executing s) then s'\<lparr>phase := Looping\<rparr>
                 else if phase s = Joining then promiseAll s'
                 else s')
         | Inl e \<Rightarrow>
             (let s' = s\<lparr>promises := (promises s)[i := Rejected e]\<rparr>
              in if phase s = Awaiting \<and> i \<in> set (executing s) then s'\<lparr>phase := Thrown e\<rparr>
                 else if phase s = Joining then s'\<lparr>phase := Thrown e\<rparr>
                 else s'))
      else s)"

definition step :: "variant \<Rightarrow> ('e + 'r) list \<Rightarrow> int \<Rightarrow> ('e, 'r) sched \<Rightarrow> event \<Rightarrow> ('e, 'r) sched" where
  "step v tasks limit s ev =
     (case ev of
        Resume \<Rightarrow>
          (if phase s = Looping
           then (if started s < length tasks then dispatch limit s else promiseAll s)
           else s)
      | Settle i \<Rightarrow> settle v tasks i s)"

definition runWithConcurrencyLimit ::
  "variant \<Rightarrow> ('e + 'r) list \<Rightarrow> int \<Rightarrow> event list \<Rightarrow> ('e, 'r) sched" where
  "runWithConcurrencyLimit v tasks limit evs = foldl (step v tasks limit) init evs"

text \<open>The tasks in flight: called, and their promise not settled yet.\<close>

definition inFlight :: "('e, 'r) sched \<Rightarrow> nat" where
  "inFlight s = length (filter (\<lambda>p. p = Pending) (promises s))"

subsection \<open>main\<close>

definition concurrency :: int where
  "concurrency = 5"

text \<open>\<^verbatim>\<open>.filter(Boolean)\<close> on the list of results and nulls.\<close>

definition filterBoolean :: "'a option list \<Rightarrow> 'a list" where
  "filterBoolean rs = List.map_filter id rs"

record Summary =
  totalUrls :: nat
  avgDuration :: number
  totalDuration :: rat
  startTime :: int
  endTime :: int

text \<open>
  \<^verbatim>\<open>results.reduce((sum, r) => sum + r.duration, 0) / results.length\<close>.
\<close>

definition averageDuration :: "ComparisonResult list \<Rightarrow> number" where
  "averageDuration rs = divide_number (foldl (\<lambda>sum r. sum + duration r) 0 rs) (length rs)"

text \<open>
  \<^verbatim>\<open>main\<close> after the login, up to the arguments of \<^verbatim>\<open>generatePDFReport\<close>: nothing to do
  for an empty list of URLs; otherwise the tasks run under the limit of 5, the nulls are
  dropped and the summary is computed. A rejection is caught by \<^verbatim>\<open>main\<close>, which exits.
\<close>

datatype outcome = NoUrls | Running | Report "ComparisonResult list" Summary | ProcessFailed error

definition summarize :: "world \<Rightarrow> ComparisonResult list \<Rightarrow> Summary" where
  "summarize w rs =
     \<lparr>totalUrls = length rs, avgDuration = averageDuration rs,
      totalDuration = of_int (browserClosed w - mainStarted w) / 1000,
      startTime = mainStarted w, endTime = summaryBuilt w\<rparr>"

definition main :: "variant \<Rightarrow> world \<Rightarrow> string list \<Rightarrow> event list \<Rightarrow> outcome" where
  "main v w urls evs =
     (if urls = [] then NoUrls
      else case phase (runWithConcurrencyLimit v (tasksOf w urls) concurrency evs) of
             Returned out \<Rightarrow> Report (filterBoolean out) (summarize w (filterBoolean out))
           | Thrown e \<Rightarrow> ProcessFailed e
           | _ \<Rightarrow> Running)"

subsection \<open>Sample inputs\<close>

text \<open>A red pixel; the same pixel with a white one to its right.\<close>

definition redImage :: RawImage where
  "redImage = \<lparr>width = 1, height = 1, data = [255, 0, 0, 255]\<rparr>"

definition wideImage :: RawImage where
  "wideImage = \<lparr>width = 2, height = 1, data = [255, 0, 0, 255, 255, 255, 255, 255]\<rparr>"

definition whiteImage :: RawImage where
  "whiteImage = \<lparr>width = 1, height = 1, data = [255, 255, 255, 255]\<rparr>"

text \<open>An attempt in which everything works, and one whose first navigation times out.\<close>

definition goodAttempt :: attemptEnv where
  "goodAttempt = \<lparr>newPage = None, captureDev = None, captureProd = None,
     readDev = Inr redImage, readProd = Inr wideImage, writeDiff = None, now = 2500\<rparr>"

definition timedOut :: attemptEnv where
  "timedOut = goodAttempt\<lparr>captureDev := Some NavigationTimeout\<rparr>"

text \<open>
  Three worlds: in \<open>sampleWorld\<close> every attempt of task 1 fails and the other tasks
  succeed at once, in \<open>retriedWorld\<close> every task succeeds at its third attempt, in
  \<open>allFail\<close> no attempt succeeds.
\<close>

definition sampleWorld :: world where
  "sampleWorld = \<lparr>mainStarted = 0, browserClosed = 9000, summaryBuilt = 9001, taskStartTime = (\<lambda>i. 1000),
     attemptOf = (\<lambda>i attempt. if i = 1 then timedOut else goodAttempt)\<rparr>"

definition retriedWorld :: world where
  "retriedWorld = \<lparr>mainStarted = 0, browserClosed = 9000, summaryBuilt = 9001, taskStartTime = (\<lambda>i. 1000),
     attemptOf = (\<lambda>i attempt. if attempt < 3 then timedOut else goodAttempt)\<rparr>"

definition allFail :: world where
  "allFail = \<lparr>mainStarted = 0, browserClosed = 9000, summaryBuilt = 9001, taskStartTime = (\<lambda>i. 1000),
     attemptOf = (\<lambda>i attempt. timedOut)\<rparr>"

text \<open>A URL of \<^verbatim>\<open>compare.ts\<close> whose dev page cannot be reached.\<close>

definition devDown :: urlEnv where
  "devDown = \<lparr>devStamp = ''1700000000000'', devNavigated = False,
     prodStamp = ''1700000000500'', prodNavigated = True,
     devScreenshot = None, prodScreenshot = None,
     devShotExists = False, prodShotExists = True,
     devImage = Inl (Error ''ENOENT''), prodImage = Inr redImage, diffWritten = None\<rparr>"

text \<open>
  A URL of \<^verbatim>\<open>compare.ts\<close> whose two pages are reached, but \<^verbatim>\<open>page.screenshot\<close> of the
  dev page times out: no dev screenshot exists.
\<close>

definition shotFailed :: urlEnv where
  "shotFailed = \<lparr>devStamp = ''1700000000000'', devNavigated = True,
     prodStamp = ''1700000000500'', prodNavigated = True,
     devScreenshot = Some (Error ''page.screenshot: Timeout 30000ms exceeded''),
     prodScreenshot = None,
     devShotExists = False, prodShotExists = True,
     devImage = Inl (Error ''ENOENT''), prodImage = Inr redImage, diffWritten = None\<rparr>"

text \<open>The result of a task of these worlds that succeeds.\<close>

definition resultFor :: "string \<Rightarrow> string \<Rightarrow> ComparisonResult" where
  "resultFor urlPath name =
     \<lparr>url = urlPath, match = True, numDiffPixels = 0,
      devPath = ''screenshots/dev/'' @ name @ ''.jpg'',
      prodPath = ''screenshots/prod/'' @ name @ ''.jpg'',
      diffPath = ''screenshots/diff/'' @ name @ ''_diff.jpg'', duration = 3 / 2\<rparr>"

definition sampleTasks :: "(error + string) list" where
  "sampleTasks = [Inr ''a'', Inr ''b'', Inr ''c'']"

subsection \<open>Invariants of a run of runWithConcurrencyLimit\<close>

text \<open>
  What holds of the arrays whatever the events: the promises are those of the tasks
  called so far, \<open>results\<close> lists them in the order of the calls, \<open>executing\<close> holds
  every pending promise and no fulfilled one, without repetition, and a settled promise
  carries what its task settled to.
\<close>

definition structural :: "('e + 'r) list \<Rightarrow> ('e, 'r) sched \<Rightarrow> bool" where
  "structural tasks s \<longleftrightarrow>
     started s \<le> length tasks \<and> length (promises s) = started s \<and>
     results s = [0..<started s] \<and>
     distinct (executing s) \<and> set (executing s) \<subseteq> {..<started s} \<and>
     (\<forall>i < started s. promises s ! i = Pending \<longrightarrow> i \<in> set (executing s)) \<and>
     (\<forall>i\<in>set (executing s). \<forall>r. promises s ! i \<noteq> Fulfilled r) \<and>
     (\<forall>i < started s. \<forall>r. promises s ! i = Fulfilled r \<longrightarrow> tasks ! i = Inr r) \<and>
     (\<forall>i < started s. \<forall>e. promises s ! i = Rejected e \<longrightarrow> tasks ! i = Inl e)"

text \<open>
  What holds in each phase: a waiting function waits on pending promises only; the loop
  is over once \<^verbatim>\<open>Promise.all\<close> is reached; the returned list is the list of the values
  of the tasks; what is thrown is the rejection of a task.
\<close>

definition phased :: "('e + 'r) list \<Rightarrow> ('e, 'r) sched \<Rightarrow> bool" where
  "phased tasks s \<longleftrightarrow>
     (phase s = Awaiting \<longrightarrow> (\<forall>i\<in>set (executing s). promises s ! i = Pending)) \<and>
     (phase s = Joining \<longrightarrow> started s = length tasks \<and> (\<forall>i < started s. \<not> rejected (promises s ! i))) \<and>
     (\<forall>out. phase s = Returned out \<longrightarrow> map Inr out = tasks) \<and>
     (\<forall>e. phase s = Thrown e \<longrightarrow> (\<exists>i < length tasks. tasks ! i = Inl e))"

text \<open>The pool: never more than \<open>limit\<close> promises, and room for one more inside the loop.\<close>

definition bounded :: "int \<Rightarrow> ('e, 'r) sched \<Rightarrow> bool" where
  "bounded limit s \<longleftrightarrow>
     int (length (executing s)) \<le> limit \<and>
     (phase s = Looping \<longrightarrow> int (length (executing s)) < limit)"

text \<open>
  A function that waits has something to wait for: a waiting pool is not empty, and
  \<^verbatim>\<open>Promise.all\<close> waits only while a promise is pending.
\<close>

definition live :: "('e, 'r) sched \<Rightarrow> bool" where
  "live s \<longleftrightarrow>
     (phase s = Awaiting \<longrightarrow> executing s \<noteq> []) \<and>
     (phase s = Joining \<longrightarrow> (\<exists>i < started s. promises s ! i = Pending))"

text \<open>
  What is left of a run: the tasks to call, the tasks in flight and the step the
  function itself has to take.
\<close>

definition remaining :: "('e + 'r) list \<Rightarrow> ('e, 'r) sched \<Rightarrow> nat" where
  "remaining tasks s =
     3 * (length tasks - started s) + inFlight s +
     (case phase s of Awaiting \<Rightarrow> 2 | Looping \<Rightarrow> 1 | _ \<Rightarrow> 0)"

section \<open>Properties\<close>

subsection \<open>The scheduler keeps its invariants\<close>

lemma structural_phase [simp]: "structural tasks (s\<lparr>phase := ph\<rparr>) = structural tasks s"
  by (simp add: structural_def)

lemma awaitRace_phase: "\<exists>ph. awaitRace s = s\<lparr>phase := ph\<rparr>"
  by (auto simp: awaitRace_def split: option.splits promise.splits)

lemma promiseAll_phase: "\<exists>ph. promiseAll s = s\<lparr>phase := ph\<rparr>"
proof (cases "find (\<lambda>i. rejected (promises s ! i)) (results s)")
  case None
  then show ?thesis by (auto simp: promiseAll_def)
next
  case (Some i)
  show ?thesis
  proof (cases "promises s ! i")
    case (Rejected e)
    with Some show ?thesis by (auto simp: promiseAll_def)
  next
    case Pending
    with Some have "promiseAll s = s" by (simp add: promiseAll_def)
    then have "promiseAll s = s\<lparr>phase := phase s\<rparr>" by simp
    then show ?thesis by blast
  next
    case (Fulfilled r)
    with Some have "promiseAll s = s" by (simp add: promiseAll_def)
    then have "promiseAll s = s\<lparr>phase := phase s\<rparr>" by simp
    then show ?thesis by blast
  qed
qed

lemma structural_init: "structural tasks init"
  by (simp add: structural_def init_def)

lemma structural_awaitRace: "structural tasks (awaitRace s) = structural tasks s"
  using awaitRace_phase[of s] by (auto simp del: structural_phase simp add: structural_phase)

lemma structural_promiseAll: "structural tasks (promiseAll s) = structural tasks s"
  using promiseAll_phase[of s] by auto

lemma structural_push:
  assumes "structural tasks s" "started s < length tasks"
  shows "structural tasks (s\<lparr>started := started s + 1,
                 results := results s @ [started s],
                 executing := executing s @ [started s],
                 promises := promises s @ [Pending]\<rparr>)"
  using assms unfolding structural_def
  by (auto simp: nth_append less_Suc_eq)

lemma structural_dispatch:
  "structural tasks s \<Longrightarrow> started s < length tasks \<Longrightarrow> structural tasks (dispatch limit s)"
  using structural_push[of tasks s]
  by (simp add: dispatch_def Let_def structural_awaitRace)


lemma splice_member: "i \<in> set ex \<Longrightarrow> splice v i ex = remove1 i ex"
  by (simp add: splice_def)

lemma structural_fulfil:
  assumes "structural tasks s" "i < started s" "promises s ! i = Pending" "tasks ! i = Inr r"
  shows "structural tasks (s\<lparr>executing := splice v i (executing s),
                              promises := (promises s)[i := Fulfilled r]\<rparr>)"
proof -
  from assms have mem: "i \<in> set (executing s)" by (auto simp: structural_def)
  have sp: "splice v i (executing s) = remove1 i (executing s)" using mem by (rule splice_member)
  from assms(1) have d: "distinct (executing s)" by (simp add: structural_def)
  show ?thesis using assms d unfolding structural_def sp
    by (auto simp: nth_list_update)
qed

lemma structural_reject:
  assumes "structural tasks s" "i < started s" "promises s ! i = Pending" "tasks ! i = Inl e"
  shows "structural tasks (s\<lparr>promises := (promises s)[i := Rejected e]\<rparr>)"
  using assms unfolding structural_def by (auto simp: nth_list_update)

lemma structural_settle:
  assumes "structural tasks s"
  shows "structural tasks (settle v tasks i s)"
proof (cases "i < started s \<and> i < length tasks \<and> promises s ! i = Pending")
  case False
  then show ?thesis using assms by (auto simp: settle_def)
next
  case True
  show ?thesis
  proof (cases "tasks ! i")
    case (Inr r)
    from structural_fulfil[OF assms _ _ Inr, of v] True
    have "structural tasks (s\<lparr>executing := splice v i (executing s),
                              promises := (promises s)[i := Fulfilled r]\<rparr>)" by simp
    with True Inr show ?thesis
      by (simp add: settle_def Let_def structural_promiseAll)
  next
    case (Inl e)
    from structural_reject[OF assms _ _ Inl] True
    have "structural tasks (s\<lparr>promises := (promises s)[i := Rejected e]\<rparr>)" by simp
    with True Inl show ?thesis
      by (simp add: settle_def Let_def)
  qed
qed

lemma structural_step: "structural tasks s \<Longrightarrow> structural tasks (step v tasks limit s ev)"
  by (cases ev) (auto simp: step_def structural_dispatch structural_promiseAll structural_settle)

lemma structural_run: "structural tasks (runWithConcurrencyLimit v tasks limit evs)"
proof -
  have "structural tasks s \<Longrightarrow> structural tasks (foldl (step v tasks limit) s evs)" for s
    by (induction evs arbitrary: s) (simp_all add: structural_step)
  then show ?thesis by (simp add: runWithConcurrencyLimit_def structural_init)
qed

lemma inFlight_le_executing:
  assumes "structural tasks s"
  shows "inFlight s \<le> length (executing s)"
proof -
  have "inFlight s = card {i. i < length (promises s) \<and> promises s ! i = Pending}"
    by (simp add: inFlight_def length_filter_conv_card)
  also have "\<dots> \<le> card (set (executing s))"
    using assms by (intro card_mono) (auto simp: structural_def)
  also have "\<dots> = length (executing s)"
    using assms by (simp add: structural_def distinct_card)
  finally show ?thesis .
qed


lemma phased_awaitRace:
  assumes "structural tasks s"
  shows "phased tasks (awaitRace s)"
proof (cases "find (\<lambda>i. promises s ! i \<noteq> Pending) (executing s)")
  case None
  then have "\<forall>i\<in>set (executing s). promises s ! i = Pending"
    by (auto simp: find_None_iff)
  with None show ?thesis by (simp add: awaitRace_def phased_def)
next
  case (Some i)
  then have mem: "i \<in> set (executing s)" by (auto simp: find_Some_iff)
  with assms have i: "i < started s" "started s \<le> length tasks" by (auto simp: structural_def)
  show ?thesis
  proof (cases "promises s ! i")
    case (Rejected e)
    with assms i have "tasks ! i = Inl e" by (auto simp: structural_def)
    moreover from i have "i < length tasks" by simp
    ultimately have "\<exists>j < length tasks. tasks ! j = Inl e" by blast
    with Some Rejected show ?thesis by (auto simp: awaitRace_def phased_def)
  qed (use Some in \<open>auto simp: awaitRace_def phased_def\<close>)
qed

lemma awaitRace_not_Looping:
  assumes "structural tasks s"
  shows "phase (awaitRace s) \<noteq> Looping"
proof (cases "find (\<lambda>i. promises s ! i \<noteq> Pending) (executing s)")
  case None
  then show ?thesis by (simp add: awaitRace_def)
next
  case (Some i)
  then have "i \<in> set (executing s)" "promises s ! i \<noteq> Pending" by (auto simp: find_Some_iff)
  with assms have "\<exists>e. promises s ! i = Rejected e"
    by (cases "promises s ! i") (auto simp: structural_def)
  with Some show ?thesis by (auto simp: awaitRace_def)
qed

lemma values_of_fulfilled:
  assumes "structural tasks s" "started s = length tasks"
    and "\<forall>i < started s. \<not> rejected (promises s ! i)"
    and "\<forall>i < started s. promises s ! i \<noteq> Pending"
  shows "map Inr (List.map_filter (\<lambda>i. fulfilledValue (promises s ! i)) (results s)) = tasks"
proof -
  have ful: "\<exists>r. promises s ! i = Fulfilled r \<and> tasks ! i = Inr r" if "i < length tasks" for i
  proof (cases "promises s ! i")
    case (Fulfilled r)
    with assms that show ?thesis by (auto simp: structural_def)
  qed (use assms that in \<open>auto simp: rejected_def\<close>)
  have "List.map_filter (\<lambda>i. fulfilledValue (promises s ! i)) [0..<n] = map (\<lambda>i. projr (tasks ! i)) [0..<n]"
    if "n \<le> length tasks" for n
    using that unfolding List.map_filter_def
  proof (induction n)
    case 0
    then show ?case by simp
  next
    case (Suc n)
    then obtain r where "promises s ! n = Fulfilled r" "tasks ! n = Inr r" using ful[of n] by auto
    with Suc show ?case by (simp add: fulfilledValue_def)
  qed
  from this[of "length tasks"] assms(1,2)
  have "List.map_filter (\<lambda>i. fulfilledValue (promises s ! i)) (results s)
          = map (\<lambda>i. projr (tasks ! i)) [0..<length tasks]"
    by (simp add: structural_def)
  moreover have "map Inr (map (\<lambda>i. projr (tasks ! i)) [0..<length tasks]) = map (\<lambda>i. tasks ! i) [0..<length tasks]"
  proof (rule map_cong[OF refl, of _ "Inr \<circ> (\<lambda>i. projr (tasks ! i))", unfolded map_map[symmetric]])
    fix x assume "x \<in> set [0..<length tasks]"
    then have "x < length tasks" by simp
    from ful[OF this] show "(Inr \<circ> (\<lambda>i. projr (tasks ! i))) x = tasks ! x" by auto
  qed
  ultimately show ?thesis by (simp add: map_nth)
qed

lemma phased_promiseAll:
  assumes "structural tasks s" "started s = length tasks"
  shows "phased tasks (promiseAll s)"
proof (cases "find (\<lambda>i. rejected (promises s ! i)) (results s)")
  case (Some i)
  then have "i \<in> set (results s)" "rejected (promises s ! i)" by (auto simp: find_Some_iff)
  with assms have i: "i < length tasks" by (auto simp: structural_def)
  from \<open>rejected (promises s ! i)\<close> obtain e where e: "promises s ! i = Rejected e"
    by (cases "promises s ! i") (auto simp: rejected_def)
  with assms i have "tasks ! i = Inl e" by (auto simp: structural_def)
  with Some e i show ?thesis by (auto simp: promiseAll_def phased_def)
next
  case None
  with assms have nr: "\<forall>i < started s. \<not> rejected (promises s ! i)"
    by (auto simp: find_None_iff structural_def)
  show ?thesis
  proof (cases "list_all (\<lambda>i. promises s ! i \<noteq> Pending) (results s)")
    case True
    with assms have "\<forall>i < started s. promises s ! i \<noteq> Pending"
      by (auto simp: list_all_iff structural_def)
    from values_of_fulfilled[OF assms nr this] None True show ?thesis
      by (simp add: promiseAll_def phased_def)
  next
    case False
    with None nr assms show ?thesis by (simp add: promiseAll_def phased_def)
  qed
qed


lemma phased_dispatch:
  assumes "structural tasks s" "started s < length tasks" "phase s = Looping"
  shows "phased tasks (dispatch limit s)"
proof -
  let ?s' = "s\<lparr>started := started s + 1, results := results s @ [started s],
                executing := executing s @ [started s], promises := promises s @ [Pending]\<rparr>"
  have st: "structural tasks ?s'" using assms(1,2) by (rule structural_push)
  show ?thesis
  proof (cases "limit \<le> int (length (executing ?s'))")
    case True
    then have "dispatch limit s = awaitRace ?s'" by (simp add: dispatch_def Let_def)
    with phased_awaitRace[OF st] show ?thesis by simp
  next
    case False
    then have "dispatch limit s = ?s'" by (simp add: dispatch_def Let_def)
    moreover have "phased tasks ?s'" using assms(3) by (simp add: phased_def)
    ultimately show ?thesis by simp
  qed
qed

lemma phased_unchanged:
  assumes "phased tasks s" "phase s \<noteq> Awaiting" "phase s \<noteq> Joining"
  shows "phased tasks (s\<lparr>executing := ex, promises := ps\<rparr>)"
  using assms by (simp add: phased_def)

lemma phased_settle:
  assumes st: "structural tasks s" and ph: "phased tasks s"
  shows "phased tasks (settle v tasks i s)"
proof (cases "i < started s \<and> i < length tasks \<and> promises s ! i = Pending")
  case False
  then show ?thesis using ph by (auto simp: settle_def)
next
  case True
  with st have mem: "i \<in> set (executing s)" by (auto simp: structural_def)
  show ?thesis
  proof (cases "tasks ! i")
    case (Inr r)
    let ?s' = "s\<lparr>executing := splice v i (executing s), promises := (promises s)[i := Fulfilled r]\<rparr>"
    have st': "structural tasks ?s'" using structural_fulfil[OF st _ _ Inr, of v] True by simp
    consider (aw) "phase s = Awaiting" | (jo) "phase s = Joining"
      | (other) "phase s \<noteq> Awaiting" "phase s \<noteq> Joining" by blast
    then show ?thesis
    proof cases
      case aw
      with True Inr mem have "settle v tasks i s = ?s'\<lparr>phase := Looping\<rparr>"
        by (simp add: settle_def Let_def)
      then show ?thesis by (simp add: phased_def)
    next
      case jo
      with True Inr have eq: "settle v tasks i s = promiseAll ?s'"
        by (simp add: settle_def Let_def)
      from jo ph have "started ?s' = length tasks" by (simp add: phased_def)
      from phased_promiseAll[OF st' this] eq show ?thesis by simp
    next
      case other
      with True Inr have "settle v tasks i s = ?s'" by (simp add: settle_def Let_def)
      with phased_unchanged[OF ph other] show ?thesis by simp
    qed
  next
    case (Inl e)
    let ?s' = "s\<lparr>promises := (promises s)[i := Rejected e]\<rparr>"
    from True Inl have thrown: "\<exists>j < length tasks. tasks ! j = Inl e" by blast
    consider (aw) "phase s = Awaiting" | (jo) "phase s = Joining"
      | (other) "phase s \<noteq> Awaiting" "phase s \<noteq> Joining" by blast
    then show ?thesis
    proof cases
      case aw
      with True Inl mem have "settle v tasks i s = ?s'\<lparr>phase := Thrown e\<rparr>"
        by (simp add: settle_def Let_def)
      with thrown show ?thesis by (simp add: phased_def)
    next
      case jo
      with True Inl have "settle v tasks i s = ?s'\<lparr>phase := Thrown e\<rparr>"
        by (simp add: settle_def Let_def)
      with thrown show ?thesis by (simp add: phased_def)
    next
      case other
      with True Inl have "settle v tasks i s = ?s'"
        by (simp add: settle_def Let_def)
      moreover have "phased tasks ?s'" using ph other by (simp add: phased_def)
      ultimately show ?thesis by simp
    qed
  qed
qed

lemma phased_step:
  assumes "structural tasks s" "phased tasks s"
  shows "phased tasks (step v tasks limit s ev)"
proof (cases ev)
  case (Settle i)
  with phased_settle[OF assms] show ?thesis by (simp add: step_def)
next
  case Resume
  show ?thesis
  proof (cases "phase s = Looping")
    case False
    with Resume assms show ?thesis by (simp add: step_def)
  next
    case True
    show ?thesis
    proof (cases "started s < length tasks")
      case lt: True
      with Resume True phased_dispatch[OF assms(1) lt True] show ?thesis by (simp add: step_def)
    next
      case False
      with assms(1) have "started s = length tasks" by (simp add: structural_def)
      from phased_promiseAll[OF assms(1) this] Resume True False show ?thesis
        by (simp add: step_def)
    qed
  qed
qed

lemma phased_init: "phased tasks init"
  by (simp add: phased_def init_def)

lemma invariants_run:
  "structural tasks (runWithConcurrencyLimit v tasks limit evs) \<and>
   phased tasks (runWithConcurrencyLimit v tasks limit evs)"
proof -
  have "structural tasks s \<and> phased tasks s \<Longrightarrow>
        structural tasks (foldl (step v tasks limit) s evs) \<and>
        phased tasks (foldl (step v tasks limit) s evs)" for s
    by (induction evs arbitrary: s) (simp_all add: structural_step phased_step)
  then show ?thesis by (simp add: runWithConcurrencyLimit_def structural_init phased_init)
qed

lemma bounded_init: "1 \<le> limit \<Longrightarrow> bounded limit init"
  by (simp add: bounded_def init_def)

lemma bounded_step:
  assumes lim: "1 \<le> limit" and st: "structural tasks s" and b: "bounded limit s"
  shows "bounded limit (step v tasks limit s ev)"
proof (cases ev)
  case Resume
  show ?thesis
  proof (cases "phase s = Looping")
    case False
    with Resume b show ?thesis by (simp add: step_def)
  next
    case True
    with b have lt: "int (length (executing s)) < limit" by (simp add: bounded_def)
    show ?thesis
    proof (cases "started s < length tasks")
      case s: True
      let ?s' = "s\<lparr>started := started s + 1, results := results s @ [started s],
                executing := executing s @ [started s], promises := promises s @ [Pending]\<rparr>"
      have st': "structural tasks ?s'" using st s by (rule structural_push)
      show ?thesis
      proof (cases "limit \<le> int (length (executing ?s'))")
        case full: True
        then have eq: "dispatch limit s = awaitRace ?s'" by (simp add: dispatch_def Let_def)
        obtain ph where ph: "awaitRace ?s' = ?s'\<lparr>phase := ph\<rparr>" using awaitRace_phase by blast
        from awaitRace_not_Looping[OF st'] ph have "ph \<noteq> Looping" by simp
        with lt ph eq Resume True s show ?thesis by (simp add: step_def bounded_def)
      next
        case False
        then have "dispatch limit s = ?s'" by (simp add: dispatch_def Let_def)
        with False Resume True s show ?thesis by (simp add: step_def bounded_def)
      qed
    next
      case False
      obtain ph where "promiseAll s = s\<lparr>phase := ph\<rparr>" using promiseAll_phase by blast
      with False Resume True lt show ?thesis by (simp add: step_def bounded_def)
    qed
  qed
next
  case (Settle i)
  show ?thesis
  proof (cases "i < started s \<and> i < length tasks \<and> promises s ! i = Pending")
    case False
    with Settle b show ?thesis by (auto simp: step_def settle_def)
  next
    case True
    with st have mem: "i \<in> set (executing s)" by (auto simp: structural_def)
    then have len: "length (remove1 i (executing s)) = length (executing s) - 1"
      by (simp add: length_remove1)
    from mem have pos: "0 < length (executing s)" by (cases "executing s") auto
    show ?thesis
    proof (cases "tasks ! i")
      case (Inr r)
      let ?s' = "s\<lparr>executing := splice v i (executing s), promises := (promises s)[i := Fulfilled r]\<rparr>"
      have "int (length (executing s) - 1) < limit"
        using b pos unfolding bounded_def by linarith
      then have b': "int (length (executing ?s')) < limit"
        using len mem by (simp add: splice_member)
      obtain ph where "promiseAll ?s' = ?s'\<lparr>phase := ph\<rparr>" using promiseAll_phase by blast
      with b' Settle True Inr show ?thesis
        by (simp add: step_def settle_def Let_def bounded_def)
    next
      case (Inl e)
      with b Settle True show ?thesis
        by (auto simp add: step_def settle_def Let_def bounded_def)
    qed
  qed
qed

lemma bounded_run:
  assumes "1 \<le> limit"
  shows "bounded limit (runWithConcurrencyLimit v tasks limit evs)"
proof -
  have "structural tasks s \<and> bounded limit s \<Longrightarrow>
        structural tasks (foldl (step v tasks limit) s evs) \<and>
        bounded limit (foldl (step v tasks limit) s evs)" for s
    by (induction evs arbitrary: s) (simp_all add: structural_step bounded_step[OF assms])
  then show ?thesis by (simp add: runWithConcurrencyLimit_def structural_init bounded_init[OF assms])
qed

subsection \<open>A run of tasks that fulfil can always return\<close>

lemma promiseAll_cases:
  "(\<exists>e. promiseAll s = s\<lparr>phase := Thrown e\<rparr> \<and> (\<exists>i\<in>set (results s). promises s ! i = Rejected e)) \<or>
   (\<exists>out. promiseAll s = s\<lparr>phase := Returned out\<rparr>) \<or>
   (promiseAll s = s\<lparr>phase := Joining\<rparr> \<and> (\<exists>i\<in>set (results s). promises s ! i = Pending))"
proof (cases "find (\<lambda>i. rejected (promises s ! i)) (results s)")
  case (Some i)
  then have "i \<in> set (results s)" "rejected (promises s ! i)" by (auto simp: find_Some_iff)
  moreover then obtain e where "promises s ! i = Rejected e"
    by (cases "promises s ! i") (auto simp: rejected_def)
  ultimately show ?thesis using Some by (auto simp: promiseAll_def)
next
  case None
  then show ?thesis by (auto simp: promiseAll_def list_all_iff)
qed

lemma awaitRace_executing: "executing (awaitRace s) = executing s"
  by (auto simp: awaitRace_def split: option.splits promise.splits)

lemma awaitRace_not_Joining: "phase (awaitRace s) \<noteq> Joining"
  by (auto simp: awaitRace_def split: option.splits promise.splits)

lemma live_init: "live init"
  by (simp add: live_def init_def)

lemma live_step:
  assumes st: "structural tasks s" and lv: "live s"
  shows "live (step v tasks limit s ev)"
proof (cases ev)
  case Resume
  show ?thesis
  proof (cases "phase s = Looping")
    case False
    with Resume lv show ?thesis by (simp add: step_def)
  next
    case True
    show ?thesis
    proof (cases "started s < length tasks")
      case lt: True
      let ?s' = "s\<lparr>started := started s + 1, results := results s @ [started s],
                executing := executing s @ [started s], promises := promises s @ [Pending]\<rparr>"
      have "live (awaitRace ?s')"
        by (simp add: live_def awaitRace_executing awaitRace_not_Joining)
      moreover from True have "live ?s'" by (simp add: live_def)
      ultimately have "live (dispatch limit s)"
        by (simp add: dispatch_def Let_def)
      with Resume True lt show ?thesis by (simp add: step_def)
    next
      case False
      from st have res: "results s = [0..<started s]" by (simp add: structural_def)
      from promiseAll_cases[of s] res have "live (promiseAll s)"
        by (auto simp: live_def)
      with Resume True False show ?thesis by (simp add: step_def)
    qed
  qed
next
  case (Settle i)
  show ?thesis
  proof (cases "i < started s \<and> i < length tasks \<and> promises s ! i = Pending")
    case False
    with Settle lv show ?thesis by (auto simp: step_def settle_def)
  next
    case True
    with st have mem: "i \<in> set (executing s)" by (auto simp: structural_def)
    show ?thesis
    proof (cases "tasks ! i")
      case (Inr r)
      let ?s' = "s\<lparr>executing := splice v i (executing s), promises := (promises s)[i := Fulfilled r]\<rparr>"
      have st': "structural tasks ?s'" using structural_fulfil[OF st _ _ Inr, of v] True by simp
      then have res: "results ?s' = [0..<started ?s']" by (simp add: structural_def)
      from promiseAll_cases[of ?s'] res have "live (promiseAll ?s')"
        by (auto simp: live_def)
      moreover have "live (?s'\<lparr>phase := Looping\<rparr>)" by (simp add: live_def)
      moreover have "live ?s'" if "phase s \<noteq> Awaiting" "phase s \<noteq> Joining"
        using that by (simp add: live_def)
      ultimately show ?thesis using Settle True Inr mem
        by (auto simp: step_def settle_def Let_def)
    next
      case (Inl e)
      let ?s' = "s\<lparr>promises := (promises s)[i := Rejected e]\<rparr>"
      have "live (?s'\<lparr>phase := Thrown e\<rparr>)" by (simp add: live_def)
      moreover have "live ?s'" if "phase s \<noteq> Awaiting" "phase s \<noteq> Joining"
        using that by (simp add: live_def)
      ultimately show ?thesis using Settle True Inl mem
        by (auto simp: step_def settle_def Let_def)
    qed
  qed
qed


lemma filter_update_count:
  assumes "i < length xs" "P (xs ! i)" "\<not> P y"
  shows "Suc (length (filter P (xs[i := y]))) = length (filter P xs)"
proof -
  have "xs = take i xs @ xs ! i # drop (Suc i) xs" using assms(1) by (rule id_take_nth_drop)
  then have "length (filter P xs) = length (filter P (take i xs @ xs ! i # drop (Suc i) xs))"
    by simp
  moreover have "xs[i := y] = take i xs @ y # drop (Suc i) xs"
    using assms(1) by (rule upd_conv_take_nth_drop)
  ultimately show ?thesis using assms(2,3) by simp
qed

lemma inFlight_awaitRace: "inFlight (awaitRace s) = inFlight s"
  by (auto simp: inFlight_def awaitRace_def split: option.splits promise.splits)

lemma inFlight_promiseAll: "inFlight (promiseAll s) = inFlight s"
  using promiseAll_phase[of s] by (auto simp: inFlight_def)

lemma started_awaitRace: "started (awaitRace s) = started s"
  by (auto simp: awaitRace_def split: option.splits promise.splits)

lemma started_promiseAll: "started (promiseAll s) = started s"
  using promiseAll_phase[of s] by auto

lemma phase_promiseAll:
  "phase (promiseAll s) \<noteq> Looping \<or> phase s \<noteq> Looping" "phase (promiseAll s) \<noteq> Awaiting \<or> phase s \<noteq> Looping"
  using promiseAll_cases[of s] by auto

lemma progress_event:
  assumes ful: "\<forall>t\<in>set tasks. \<not> isl t"
    and st: "structural tasks s" and ph: "phased tasks s" and lv: "live s"
    and run: "\<forall>out. phase s \<noteq> Returned out"
  shows "\<exists>ev. remaining tasks (step v tasks limit s ev) < remaining tasks s"
proof (cases "phase s")
  case (Returned out)
  with run show ?thesis by simp
next
  case (Thrown e)
  with ph obtain i where "i < length tasks" "tasks ! i = Inl e" by (auto simp: phased_def)
  with ful have False by (metis nth_mem sum.disc(1))
  then show ?thesis ..
next
  case Looping
  show ?thesis
  proof (cases "started s < length tasks")
    case True
    let ?s' = "s\<lparr>started := started s + 1, results := results s @ [started s],
                executing := executing s @ [started s], promises := promises s @ [Pending]\<rparr>"
    have "inFlight (dispatch limit s) = inFlight ?s'"
      by (simp add: dispatch_def Let_def inFlight_awaitRace)
    moreover have "inFlight ?s' = inFlight s + 1" by (simp add: inFlight_def)
    moreover have "started (dispatch limit s) = started s + 1"
      by (simp add: dispatch_def Let_def started_awaitRace)
    ultimately have d: "started (dispatch limit s) = started s + 1"
      "inFlight (dispatch limit s) = inFlight s + 1"
      by simp_all
    have "(case phase (dispatch limit s) of Awaiting \<Rightarrow> 2 | Looping \<Rightarrow> 1 | _ \<Rightarrow> 0) \<le> (2::nat)"
      by (cases "phase (dispatch limit s)") simp_all
    with d True Looping have "remaining tasks (dispatch limit s) < remaining tasks s"
      by (simp add: remaining_def)
    with True Looping have "remaining tasks (step v tasks limit s Resume) < remaining tasks s"
      by (simp add: step_def)
    then show ?thesis ..
  next
    case False
    from promiseAll_cases[of s] Looping
    have "(case phase (promiseAll s) of Awaiting \<Rightarrow> 2 | Looping \<Rightarrow> 1 | _ \<Rightarrow> 0) = (0::nat)"
      by auto
    with Looping have "remaining tasks (promiseAll s) < remaining tasks s"
      by (simp add: remaining_def started_promiseAll inFlight_promiseAll)
    with False Looping have "remaining tasks (step v tasks limit s Resume) < remaining tasks s"
      by (simp add: step_def)
    then show ?thesis ..
  qed
next
  case Awaiting
  with lv obtain i where mem: "i \<in> set (executing s)" by (cases "executing s") (auto simp: live_def)
  with ph Awaiting have pend: "promises s ! i = Pending" by (simp add: phased_def)
  from mem st have i: "i < started s" "started s \<le> length tasks" "length (promises s) = started s"
    by (auto simp: structural_def)
  then have "tasks ! i \<in> set tasks" by simp
  with ful have "\<not> isl (tasks ! i)" by blast
  then obtain r where r: "tasks ! i = Inr r" by (cases "tasks ! i") simp_all
  let ?s' = "s\<lparr>executing := splice v i (executing s), promises := (promises s)[i := Fulfilled r]\<rparr>"
  from i pend r mem Awaiting have eq: "step v tasks limit s (Settle i) = ?s'\<lparr>phase := Looping\<rparr>"
    by (simp add: step_def settle_def Let_def)
  from filter_update_count[of i "promises s" "\<lambda>p. p = Pending" "Fulfilled r"] i pend
  have "Suc (inFlight ?s') = inFlight s" by (simp add: inFlight_def)
  with Awaiting have "remaining tasks (?s'\<lparr>phase := Looping\<rparr>) < remaining tasks s"
    by (simp add: remaining_def inFlight_def)
  with eq show ?thesis by metis
next
  case Joining
  with lv obtain i where i: "i < started s" and pend: "promises s ! i = Pending"
    by (auto simp: live_def)
  from st have len: "started s \<le> length tasks" "length (promises s) = started s"
    by (auto simp: structural_def)
  with i have "tasks ! i \<in> set tasks" by simp
  with ful have "\<not> isl (tasks ! i)" by blast
  then obtain r where r: "tasks ! i = Inr r" by (cases "tasks ! i") simp_all
  let ?s' = "s\<lparr>executing := splice v i (executing s), promises := (promises s)[i := Fulfilled r]\<rparr>"
  from i len pend r Joining have eq: "step v tasks limit s (Settle i) = promiseAll ?s'"
    by (simp add: step_def settle_def Let_def)
  from filter_update_count[of i "promises s" "\<lambda>p. p = Pending" "Fulfilled r"] i len pend
  have c: "Suc (inFlight ?s') = inFlight s" by (simp add: inFlight_def)
  from promiseAll_cases[of ?s'] Joining
  have "(case phase (promiseAll ?s') of Awaiting \<Rightarrow> 2 | Looping \<Rightarrow> 1 | _ \<Rightarrow> 0) = (0::nat)"
    by auto
  with c Joining have "remaining tasks (promiseAll ?s') < remaining tasks s"
    by (simp add: remaining_def started_promiseAll inFlight_promiseAll)
  with eq show ?thesis by metis
qed

lemma can_return_from:
  assumes ful: "\<forall>t\<in>set tasks. \<not> isl t"
  shows "structural tasks s \<Longrightarrow> phased tasks s \<Longrightarrow> live s \<Longrightarrow>
         \<exists>evs out. phase (foldl (step v tasks limit) s evs) = Returned out"
proof (induction "remaining tasks s" arbitrary: s rule: less_induct)
  case less
  show ?case
  proof (cases "\<exists>out. phase s = Returned out")
    case True
    then obtain out where "phase (foldl (step v tasks limit) s []) = Returned out" by auto
    then show ?thesis by blast
  next
    case False
    then have "\<forall>out. phase s \<noteq> Returned out" by simp
    from progress_event[OF ful less.prems this, of v limit]
    obtain ev where ev: "remaining tasks (step v tasks limit s ev) < remaining tasks s" by blast
    let ?s' = "step v tasks limit s ev"
    from less.prems have "structural tasks ?s'" "phased tasks ?s'" "live ?s'"
      by (simp_all add: structural_step phased_step live_step)
    from less.hyps[OF ev this] obtain evs out where
      "phase (foldl (step v tasks limit) ?s' evs) = Returned out" by blast
    then have "phase (foldl (step v tasks limit) s (ev # evs)) = Returned out" by simp
    then show ?thesis by blast
  qed
qed

lemma live_run: "live (runWithConcurrencyLimit v tasks limit evs)"
proof -
  have "structural tasks s \<and> live s \<Longrightarrow>
        structural tasks (foldl (step v tasks limit) s evs) \<and> live (foldl (step v tasks limit) s evs)"
    for s :: "('a, 'b) sched" and tasks :: "('a + 'b) list"
    by (induction evs arbitrary: s) (simp_all add: structural_step live_step)
  from this[of tasks init] show ?thesis
    by (simp add: runWithConcurrencyLimit_def structural_init live_init)
qed

lemma run_can_return:
  assumes "\<forall>t\<in>set tasks. \<not> isl t"
  shows "\<exists>more out. phase (runWithConcurrencyLimit v tasks limit (evs @ more)) = Returned out"
proof -
  let ?s = "runWithConcurrencyLimit v tasks limit evs"
  have "structural tasks ?s" "phased tasks ?s" "live ?s"
    using invariants_run[of tasks v limit evs] live_run[of v tasks limit evs] by simp_all
  from can_return_from[OF assms this, of v limit]
  show ?thesis by (simp add: runWithConcurrencyLimit_def)
qed

subsection \<open>Tasks and the results of main\<close>

lemma attempts_Some:
  "attempts w i u k = Inr (Some r) \<Longrightarrow> 
     (match r \<longleftrightarrow> numDiffPixels r = 0) \<and> url r = u \<and>
     (\<exists>a. k \<le> a \<and> a \<le> 3 \<and> newPage (attemptOf w i a) = None \<and> tryAttempt (attemptOf w i a) (pathsOf u) = Inr (numDiffPixels r, diffPath r))"
proof (induction w i u k rule: attempts.induct)
  case (1 w i urlPath attempt)
  note prem = "1.prems"[unfolded attempts.simps[of w i urlPath attempt]]
  show ?case
  proof (cases "attempt \<le> 3")
    case False
    with prem show ?thesis by simp
  next
    case le: True
    show ?thesis
    proof (cases "newPage (attemptOf w i attempt)")
      case (Some e)
      with le prem show ?thesis by simp
    next
      case None
      show ?thesis
      proof (cases "tryAttempt (attemptOf w i attempt) (pathsOf urlPath)")
        case (Inr res)
        obtain n p where res: "res = (n, p)" by (cases res)
        with le None Inr prem have "r = \<lparr>url = urlPath, match = (n = 0), numDiffPixels = n,
                             devPath = dev (pathsOf urlPath), prodPath = prod (pathsOf urlPath),
                             diffPath = p,
                             duration = of_int (now (attemptOf w i attempt) - taskStartTime w i) / 1000\<rparr>"
          by simp
        with le None Inr res show ?thesis by auto
      next
        case (Inl e)
        show ?thesis
        proof (cases "attempt = 3")
          case True
          with le None Inl prem show ?thesis by simp
        next
          case False
          with le None Inl prem have "attempts w i urlPath (attempt + 1) = Inr (Some r)"
            by simp
          from "1.IH"[OF le None Inl False this] show ?thesis by (meson add_leD1)
        qed
      qed
    qed
  qed
qed

lemma task_Some:
  assumes "task w i u = Inr (Some r)"
  shows "(match r \<longleftrightarrow> numDiffPixels r = 0) \<and> url r = u \<and>
     (\<exists>a\<in>{1, 2, 3}. tryAttempt (attemptOf w i a) (pathsOf u) = Inr (numDiffPixels r, diffPath r))"
proof -
  from assms have "attempts w i u 1 = Inr (Some r)" by (simp add: task_def)
  from attempts_Some[OF this]
  have rest: "match r \<longleftrightarrow> numDiffPixels r = 0" "url r = u"
    and ex: "\<exists>a. 1 \<le> a \<and> a \<le> 3 \<and> newPage (attemptOf w i a) = None \<and>
               tryAttempt (attemptOf w i a) (pathsOf u) = Inr (numDiffPixels r, diffPath r)"
    by simp_all
  from ex obtain a where a: "1 \<le> a" "a \<le> 3"
    "tryAttempt (attemptOf w i a) (pathsOf u) = Inr (numDiffPixels r, diffPath r)"
    by (elim exE conjE)
  from a(1,2) have "a = 1 \<or> a = 2 \<or> a = 3" by linarith
  then have "a \<in> {1, 2, 3}" by simp
  with a(3) have "\<exists>a\<in>{1, 2, 3}. tryAttempt (attemptOf w i a) (pathsOf u) = Inr (numDiffPixels r, diffPath r)"
    by (rule_tac x = a in bexI)
  with rest show ?thesis by simp
qed

lemma task_exhausted:
  assumes "\<forall>a\<in>{1, 2, 3}. newPage (attemptOf w i a) = None \<and> isl (tryAttempt (attemptOf w i a) (pathsOf u))"
  shows "task w i u = Inr None"
proof -
  have f: "newPage (attemptOf w i a) = None" "\<exists>e. tryAttempt (attemptOf w i a) (pathsOf u) = Inl e"
    if "a \<in> {1, 2, 3}" for a
    using assms that by (auto simp: isl_def)
  have a3: "attempts w i u 3 = Inr None"
    using f[of 3] by (subst attempts.simps) auto
  have "attempts w i u 2 = attempts w i u 3"
    using f[of 2] by (subst attempts.simps) auto
  with a3 have a2: "attempts w i u 2 = Inr None" by simp
  have "attempts w i u 1 = attempts w i u 2"
    using f[of 1] by (subst attempts.simps) (auto simp: numeral_2_eq_2)
  with a2 show ?thesis by (simp add: task_def)
qed

lemma tasksOf_length: "length (tasksOf w urls) = length urls"
  by (simp add: tasksOf_def)

lemma tasksOf_nth: "i < length urls \<Longrightarrow> tasksOf w urls ! i = task w i (urls ! i)"
  by (simp add: tasksOf_def nth_enumerate_eq)

lemma main_Report:
  assumes "main v w urls evs = Report rs sm"
  shows "\<exists>out. map Inr out = tasksOf w urls \<and> rs = filterBoolean out \<and> sm = summarize w rs"
proof -
  from assms have ne: "urls \<noteq> []" by (auto simp: main_def split: if_splits)
  with assms obtain out where
    "phase (runWithConcurrencyLimit v (tasksOf w urls) concurrency evs) = Returned out"
    "rs = filterBoolean out" "sm = summarize w rs"
    by (auto simp: main_def split: phase.splits)
  moreover from invariants_run[of "tasksOf w urls" v concurrency evs] this(1)
  have "map Inr out = tasksOf w urls" by (simp add: phased_def)
  ultimately show ?thesis by blast
qed

lemma urls_of_results:
  assumes "map Inr out = map (\<lambda>(i, u). task w i u) ps"
  shows "map url (filterBoolean out) = map snd (filter (\<lambda>(i, u). task w i u \<noteq> Inr None) ps)"
  using assms
proof (induction ps arbitrary: out)
  case Nil
  then show ?case by (simp add: filterBoolean_def map_filter_simps)
next
  case (Cons p ps)
  obtain i u where p: "p = (i, u)" by (cases p)
  from Cons.prems obtain o1 rest where out: "out = o1 # rest" by (cases out) auto
  with Cons.prems p have hd: "task w i u = Inr o1" and tl: "map Inr rest = map (\<lambda>(i, u). task w i u) ps"
    by auto
  from Cons.IH[OF tl] have IH: "map url (filterBoolean rest) = map snd (filter (\<lambda>(i, u). task w i u \<noteq> Inr None) ps)" .
  show ?case
  proof (cases o1)
    case None
    with hd IH out p show ?thesis by (simp add: filterBoolean_def map_filter_simps)
  next
    case (Some r)
    with hd have "url r = u" using task_Some by blast
    with Some hd IH out p show ?thesis by (simp add: filterBoolean_def map_filter_simps)
  qed
qed

lemma main_can_report:
  assumes "urls \<noteq> []" and "\<forall>j < length urls. \<not> isl (task w j (urls ! j))"
  shows "\<exists>more rs sm. main v w urls (evs @ more) = Report rs sm"
proof -
  have "\<forall>t\<in>set (tasksOf w urls). \<not> isl t"
    using assms(2) by (auto simp: in_set_conv_nth tasksOf_length tasksOf_nth)
  from run_can_return[OF this, of v concurrency evs]
  obtain more out where
    "phase (runWithConcurrencyLimit v (tasksOf w urls) concurrency (evs @ more)) = Returned out"
    by blast
  with assms(1) have "main v w urls (evs @ more) =
      Report (filterBoolean out) (summarize w (filterBoolean out))"
    by (simp add: main_def)
  then show ?thesis by blast
qed

lemma length_filter_all: "length (filter P xs) = length xs \<longleftrightarrow> (\<forall>x\<in>set xs. P x)"
proof -
  have "length (filter P xs) + length (filter (\<lambda>x. \<not> P x) xs) = length xs"
    by (rule sum_length_filter_compl)
  then have "length (filter P xs) = length xs \<longleftrightarrow> length (filter (\<lambda>x. \<not> P x) xs) = 0" by linarith
  then show ?thesis by (simp add: filter_empty_conv)
qed

lemma pixelDiffers_same: "0 \<le> t \<Longrightarrow> \<not> pixelDiffers t p p"
  by (auto simp: pixelDiffers_def list_ex_iff zip_same channelDistance_def mult_less_0_iff)

lemma pixelmatch_same: "0 \<le> t \<Longrightarrow> length d = w * h * 4 \<Longrightarrow> pixelmatch d d w h t = Inr 0"
  by (auto simp: pixelmatch_def pixelDiffers_same zip_same filter_empty_conv)

lemma average_of_results:
  "rs \<noteq> [] \<Longrightarrow> averageDuration rs = Num (sum_list (map duration rs) / of_nat (length rs))"
proof -
  have "foldl (\<lambda>sum r. sum + duration r) a rs = a + sum_list (map duration rs)" for a
    by (induction rs arbitrary: a) (simp_all add: add.assoc)
  then show "rs \<noteq> [] \<Longrightarrow> ?thesis" by (simp add: averageDuration_def divide_number_def)
qed

subsection \<open>The count of a comparison that ends without an error\<close>

text \<open>
  A comparison that ends without an error has decoded both files and returns what the
  differ returned on the operands the script hands to it; the differ returns 0 exactly
  when no pair of corresponding pixels differs under the threshold.
\<close>

lemma pixelmatch_zero:
  "pixelmatch d1 d2 w h t = Inr n \<Longrightarrow>
     n = 0 \<longleftrightarrow> list_all (\<lambda>(p, q). \<not> pixelDiffers t p q) (zip (pixels d1) (pixels d2))"
  by (auto simp: pixelmatch_def filter_empty_conv list_all_iff split: if_splits)

lemma tryCompare_cs_Inr:
  assumes "tryCompare_cs r1 r2 written = Inr n"
  shows "\<exists>img1 img2 d1 d2 w h. r1 = Inr img1 \<and> r2 = Inr img2 \<and>
           pixelmatchArgs_cs img1 img2 = (d1, d2, w, h) \<and>
           pixelmatch d1 d2 w h (1 / 10) = Inr n"
  using assms
  by (auto simp: tryCompare_cs_def split: sum.splits prod.splits if_splits option.splits)

lemma tryCompare_compare_Inr:
  assumes "tryCompare_compare r1 r2 written = Inr n"
  shows "\<exists>img1 img2 d1 d2 w h. r1 = Inr img1 \<and> r2 = Inr img2 \<and>
           pixelmatchArgs_compare img1 img2 = (d1, d2, w, h) \<and>
           pixelmatch d1 d2 w h (1 / 10) = Inr n"
  using assms
  by (auto simp: tryCompare_compare_def split: sum.splits prod.splits if_splits option.splits)

lemma compareScreenshots_Inr:
  assumes "compareScreenshots r1 r2 written path = Inr (n, p)"
  shows "\<exists>img1 img2 d1 d2 w h. r1 = Inr img1 \<and> r2 = Inr img2 \<and>
           pixelmatchArgs img1 img2 = Inr (d1, d2, w, h) \<and>
           pixelmatch d1 d2 w h (1 / 10) = Inr n"
  using assms
  by (auto simp: compareScreenshots_def split: sum.splits prod.splits if_splits option.splits)

subsection \<open>Padding\<close>

text \<open>
  As long as the pixel indices fit the 32-bit shift (at most \<open>2 ^ 29\<close> pixels),
  \<^verbatim>\<open>padImage\<close> of \<^verbatim>\<open>compare_optimized.ts\<close> returns an image of the target size whose
  pixels are those of the source where the source lies (top-left, cut off at the target's
  border) and white elsewhere.
\<close>

lemma shl2_small:
  assumes "0 \<le> k" "k < 2 ^ 29"
  shows "shl2 k = 4 * k"
proof -
  have "push_bit 2 (word_of_int k :: 32 word) = word_of_int (4 * k)"
    by (simp add: push_bit_eq_mult)
  moreover have "sint (word_of_int (4 * k) :: 32 word) = signed_take_bit 31 (4 * k)"
    unfolding sint_sbintrunc' by simp
  moreover have "signed_take_bit 31 (4 * k) = 4 * k"
    using assms by (intro signed_take_bit_int_eq_self) simp_all
  ultimately show ?thesis by (simp add: shl2_def)
qed

lemma shl2_nat: "k < 2 ^ 29 \<Longrightarrow> shl2 (int k) = int (4 * k)"
  using shl2_small[of "int k"] by simp

lemma bufSet_int: "bufSet buf (int n) v = buf[n := v]"
  by (simp add: bufSet_def list_update_beyond)

lemma bufGet_int: "n < length buf \<Longrightarrow> bufGet buf (int n) = buf ! n"
  by (simp add: bufGet_def)

lemma length_bufSet [simp]: "length (bufSet buf i v) = length buf"
  by (simp add: bufSet_def)

lemma length_whitePixel [simp]: "length (whitePixel d buf) = length buf"
  by (simp add: whitePixel_def)

lemma length_copyPixel [simp]: "length (copyPixel src s d dst) = length dst"
  by (simp add: copyPixel_def)

lemma whitePixel_int:
  "whitePixel (int d) buf = buf[d := 255, d + 1 := 255, d + 2 := 255, d + 3 := 255]"
proof -
  have "int d + 1 = int (d + 1)" "int d + 2 = int (d + 2)" "int d + 3 = int (d + 3)" by simp_all
  then show ?thesis unfolding whitePixel_def by (simp only: bufSet_int)
qed

lemma copyPixel_int:
  assumes "s + 4 \<le> length src"
  shows "copyPixel src (int s) (int d) dst =
           dst[d := src ! s, d + 1 := src ! (s + 1), d + 2 := src ! (s + 2), d + 3 := src ! (s + 3)]"
proof -
  have i: "int d + 1 = int (d + 1)" "int d + 2 = int (d + 2)" "int d + 3 = int (d + 3)"
    "int s + 1 = int (s + 1)" "int s + 2 = int (s + 2)" "int s + 3 = int (s + 3)" by simp_all
  have g: "bufGet src (int s) = src ! s" "bufGet src (int (s + 1)) = src ! (s + 1)"
    "bufGet src (int (s + 2)) = src ! (s + 2)" "bufGet src (int (s + 3)) = src ! (s + 3)"
    using assms by (intro bufGet_int, simp)+
  show ?thesis unfolding copyPixel_def i by (simp only: bufSet_int g)
qed

lemma nth_whitePixel:
  assumes "j < length buf"
  shows "whitePixel (int d) buf ! j = (if d \<le> j \<and> j < d + 4 then 255 else buf ! j)"
proof -
  have "j = d \<or> j = d + 1 \<or> j = d + 2 \<or> j = d + 3" if "d \<le> j" "j < d + 4"
    using that by linarith
  then show ?thesis
    using assms unfolding whitePixel_int
    by (auto simp: nth_list_update)
qed

lemma nth_copyPixel:
  assumes "j < length dst" "s + 4 \<le> length src"
  shows "copyPixel src (int s) (int d) dst ! j =
           (if d \<le> j \<and> j < d + 4 then src ! (s + (j - d)) else dst ! j)"
proof -
  have "j = d \<or> j = d + 1 \<or> j = d + 2 \<or> j = d + 3" if "d \<le> j" "j < d + 4"
    using that by linarith
  then show ?thesis
    using assms(1) unfolding copyPixel_int[OF assms(2)]
    by (auto simp: nth_list_update)
qed


lemma fill_row:
  assumes "tw * y + n \<le> 2 ^ 29" "4 * (tw * y + n) \<le> length b"
  shows "length (foldl (\<lambda>b x. whitePixel (shl2 (int tw * int y + int x)) b) b [0..<n]) = length b \<and>
         (\<forall>j < length b. foldl (\<lambda>b x. whitePixel (shl2 (int tw * int y + int x)) b) b [0..<n] ! j =
            (if 4 * (tw * y) \<le> j \<and> j < 4 * (tw * y + n) then 255 else b ! j))"
  using assms
proof (induction n)
  case 0
  then show ?case by auto
next
  case (Suc n)
  let ?r = "foldl (\<lambda>b x. whitePixel (shl2 (int tw * int y + int x)) b) b [0..<n]"
  define d where "d = 4 * (tw * y + n)"
  from Suc have IH: "length ?r = length b"
    "\<forall>j < length b. ?r ! j = (if 4 * (tw * y) \<le> j \<and> j < d then 255 else b ! j)"
    by (simp_all add: d_def)
  from Suc.prems have "tw * y + n < 2 ^ 29" by simp
  then have "shl2 (int (tw * y + n)) = int d"
    unfolding d_def by (rule shl2_nat)
  then have sh: "shl2 (int tw * int y + int n) = int d" by simp
  have step: "foldl (\<lambda>b x. whitePixel (shl2 (int tw * int y + int x)) b) b [0..<Suc n] =
              whitePixel (int d) ?r"
    by (simp add: sh)
  have "whitePixel (int d) ?r ! j =
          (if 4 * (tw * y) \<le> j \<and> j < 4 * (tw * y + Suc n) then 255 else b ! j)"
    if "j < length b" for j
  proof -
    from that IH(1) have "j < length ?r" by simp
    then have "whitePixel (int d) ?r ! j = (if d \<le> j \<and> j < d + 4 then 255 else ?r ! j)"
      by (rule nth_whitePixel)
    also have "\<dots> = (if 4 * (tw * y) \<le> j \<and> j < 4 * (tw * y + Suc n) then 255 else b ! j)"
      using IH(2) that by (auto simp: d_def)
    finally show ?thesis .
  qed
  then show ?case unfolding step using IH(1) by simp
qed

lemma fillWhite_prefix:
  assumes "tw * th \<le> 2 ^ 29" "4 * (tw * th) \<le> length b" "m \<le> th"
  shows "length (foldl (\<lambda>b y. foldl (\<lambda>b x. whitePixel (shl2 (int tw * int y + int x)) b) b [0..<tw])
                   b [0..<m]) = length b \<and>
         (\<forall>j < length b.
            foldl (\<lambda>b y. foldl (\<lambda>b x. whitePixel (shl2 (int tw * int y + int x)) b) b [0..<tw])
              b [0..<m] ! j = (if j < 4 * (tw * m) then 255 else b ! j))"
  using assms(3)
proof (induction m)
  case 0
  then show ?case by simp
next
  case (Suc m)
  let ?r = "foldl (\<lambda>b y. foldl (\<lambda>b x. whitePixel (shl2 (int tw * int y + int x)) b) b [0..<tw]) b [0..<m]"
  from Suc have IH: "length ?r = length b"
    "\<forall>j < length b. ?r ! j = (if j < 4 * (tw * m) then 255 else b ! j)"
    by simp_all
  from Suc.prems have "tw * Suc m \<le> tw * th" by (intro mult_le_mono2) simp
  then have le: "tw * m + tw \<le> tw * th" by simp
  with assms have pre: "tw * m + tw \<le> 2 ^ 29" "4 * (tw * m + tw) \<le> length ?r"
    using IH(1) by simp_all
  note row = fill_row[OF pre]
  have "foldl (\<lambda>b x. whitePixel (shl2 (int tw * int m + int x)) b) ?r [0..<tw] ! j =
          (if j < 4 * (tw * Suc m) then 255 else b ! j)"
    if "j < length b" for j
    using that IH row by auto
  then show ?case using row IH(1) by simp
qed

lemma fillWhite_white:
  assumes "tw * th \<le> 2 ^ 29" "length b = 4 * (tw * th)"
  shows "fillWhite tw th b = replicate (4 * (tw * th)) 255"
proof -
  from fillWhite_prefix[of tw th b th] assms
  have "length (fillWhite tw th b) = length b"
    "\<forall>j < length b. fillWhite tw th b ! j = 255"
    by (simp_all add: fillWhite_def)
  with assms(2) show ?thesis by (intro nth_equalityI) simp_all
qed


lemma copy_row:
  assumes y: "y < th" "y < h" and n: "n \<le> w"
    and src: "length d = 4 * (w * h)" "w * h \<le> 2 ^ 29"
    and dst: "length b = 4 * (tw * th)" "tw * th \<le> 2 ^ 29"
  shows "length (foldl (\<lambda>b x. if x < tw \<and> y < th
                   then copyPixel d (shl2 (int w * int y + int x)) (shl2 (int tw * int y + int x)) b
                   else b) b [0..<n]) = length b \<and>
         (\<forall>j < length b.
            foldl (\<lambda>b x. if x < tw \<and> y < th
                   then copyPixel d (shl2 (int w * int y + int x)) (shl2 (int tw * int y + int x)) b
                   else b) b [0..<n] ! j =
            (if 4 * (tw * y) \<le> j \<and> j < 4 * (tw * y + min n tw)
             then d ! (4 * (w * y) + (j - 4 * (tw * y))) else b ! j))"
  using n
proof (induction n)
  case 0
  then show ?case by auto
next
  case (Suc n)
  let ?f = "\<lambda>b x. if x < tw \<and> y < th
                   then copyPixel d (shl2 (int w * int y + int x)) (shl2 (int tw * int y + int x)) b
                   else b"
  let ?r = "foldl ?f b [0..<n]"
  from Suc have IH: "length ?r = length b"
    "\<forall>j < length b. ?r ! j = (if 4 * (tw * y) \<le> j \<and> j < 4 * (tw * y + min n tw)
             then d ! (4 * (w * y) + (j - 4 * (tw * y))) else b ! j)"
    by simp_all
  have step: "foldl ?f b [0..<Suc n] = ?f ?r n" by simp
  show ?case
  proof (cases "n < tw")
    case False
    then have "?f ?r n = ?r" "min (Suc n) tw = min n tw" by simp_all
    with IH step show ?thesis by simp
  next
    case True
    define ss where "ss = 4 * (w * y + n)"
    define dd where "dd = 4 * (tw * y + n)"
    from Suc.prems y have "w * Suc y \<le> w * h" by (intro mult_le_mono2) simp
    with Suc.prems have sb: "w * y + n < w * h" by simp
    from y have "tw * Suc y \<le> tw * th" by (intro mult_le_mono2) simp
    with True have db: "tw * y + n < tw * th" by simp
    from sb src have "shl2 (int (w * y + n)) = int ss" unfolding ss_def by (intro shl2_nat) simp
    then have s1: "shl2 (int w * int y + int n) = int ss" by simp
    from db dst have "shl2 (int (tw * y + n)) = int dd" unfolding dd_def by (intro shl2_nat) simp
    then have s2: "shl2 (int tw * int y + int n) = int dd" by simp
    from True y have f: "?f ?r n = copyPixel d (int ss) (int dd) ?r" by (simp add: s1 s2)
    from sb src have inb: "ss + 4 \<le> length d" by (simp add: ss_def)
    have "copyPixel d (int ss) (int dd) ?r ! j =
            (if 4 * (tw * y) \<le> j \<and> j < 4 * (tw * y + min (Suc n) tw)
             then d ! (4 * (w * y) + (j - 4 * (tw * y))) else b ! j)"
      if "j < length b" for j
    proof -
      from that IH(1) have "j < length ?r" by simp
      from nth_copyPixel[OF this inb]
      have "copyPixel d (int ss) (int dd) ?r ! j =
              (if dd \<le> j \<and> j < dd + 4 then d ! (ss + (j - dd)) else ?r ! j)" .
      also have "\<dots> = (if 4 * (tw * y) \<le> j \<and> j < 4 * (tw * y + min (Suc n) tw)
             then d ! (4 * (w * y) + (j - 4 * (tw * y))) else b ! j)"
      proof (cases "dd \<le> j \<and> j < dd + 4")
        case in_new: True
        then have "ss + (j - dd) = 4 * (w * y) + (j - 4 * (tw * y))"
          by (simp add: ss_def dd_def)
        moreover from in_new True have "4 * (tw * y) \<le> j \<and> j < 4 * (tw * y + min (Suc n) tw)"
          by (simp add: dd_def min_def)
        ultimately show ?thesis using in_new by simp
      next
        case False
        with True have range: "(4 * (tw * y) \<le> j \<and> j < 4 * (tw * y + min (Suc n) tw)) =
                        (4 * (tw * y) \<le> j \<and> j < 4 * (tw * y + min n tw))"
          by (auto simp: dd_def min_def)
        from False have "(if dd \<le> j \<and> j < dd + 4 then d ! (ss + (j - dd)) else ?r ! j) = ?r ! j"
          by (simp only: if_False)
        also from IH(2) that have "?r ! j = (if 4 * (tw * y) \<le> j \<and> j < 4 * (tw * y + min n tw)
             then d ! (4 * (w * y) + (j - 4 * (tw * y))) else b ! j)"
          by blast
        also have "\<dots> = (if 4 * (tw * y) \<le> j \<and> j < 4 * (tw * y + min (Suc n) tw)
             then d ! (4 * (w * y) + (j - 4 * (tw * y))) else b ! j)"
          by (simp only: range)
        finally show ?thesis .
      qed
      finally show ?thesis .
    qed
    with IH(1) show ?thesis unfolding step f by simp
  qed
qed


lemma foldl_const: "foldl (\<lambda>b x. b) b xs = b"
  by (induction xs) simp_all

lemma if_else_eq: "x = (if C then a else b) \<Longrightarrow> \<not> C \<Longrightarrow> x = b"
  by simp

lemma if_then_eq: "x = (if C then a else b) \<Longrightarrow> C \<Longrightarrow> x = a"
  by simp

lemma copyOnto_prefix:
  assumes m: "m \<le> h"
    and src: "length d = 4 * (w * h)" "w * h \<le> 2 ^ 29"
    and dst: "length b = 4 * (tw * th)" "tw * th \<le> 2 ^ 29"
  defines "row \<equiv> \<lambda>b y. foldl (\<lambda>b x. if x < tw \<and> y < th
                   then copyPixel d (shl2 (int w * int y + int x)) (shl2 (int tw * int y + int x)) b
                   else b) b [0..<w]"
  shows "length (foldl row b [0..<m]) = length b \<and>
         (\<forall>y < min m th. \<forall>j. 4 * (tw * y) \<le> j \<and> j < 4 * (tw * y + min w tw) \<longrightarrow>
            foldl row b [0..<m] ! j = d ! (4 * (w * y) + (j - 4 * (tw * y)))) \<and>
         (\<forall>j < length b. (\<forall>y < min m th. \<not> (4 * (tw * y) \<le> j \<and> j < 4 * (tw * y + min w tw))) \<longrightarrow>
            foldl row b [0..<m] ! j = b ! j)"
  using m
proof (induction m)
  case 0
  then show ?case by simp
next
  case (Suc m)
  let ?r = "foldl row b [0..<m]"
  from Suc have IH: "length ?r = length b"
    "\<And>y j. y < min m th \<Longrightarrow> 4 * (tw * y) \<le> j \<Longrightarrow> j < 4 * (tw * y + min w tw) \<Longrightarrow>
        ?r ! j = d ! (4 * (w * y) + (j - 4 * (tw * y)))"
    "\<And>j. j < length b \<Longrightarrow> \<forall>y < min m th. \<not> (4 * (tw * y) \<le> j \<and> j < 4 * (tw * y + min w tw)) \<Longrightarrow>
        ?r ! j = b ! j"
    by simp_all
  have step: "foldl row b [0..<Suc m] = row ?r m" by simp
  show ?case
  proof (cases "m < th")
    case False
    then have "row ?r m = ?r" by (simp add: row_def foldl_const)
    moreover from False have "min (Suc m) th = min m th" by simp
    ultimately show ?thesis using Suc IH(1) unfolding step by simp
  next
    case True
    from Suc.prems have mh: "m < h" by simp
    have lenr: "length ?r = 4 * (tw * th)" using IH(1) dst by simp
    from copy_row[OF True mh order_refl src lenr dst(2)]
    have row: "length (row ?r m) = length ?r"
      "\<And>j. j < length ?r \<Longrightarrow> row ?r m ! j =
          (if 4 * (tw * m) \<le> j \<and> j < 4 * (tw * m + min w tw)
           then d ! (4 * (w * m) + (j - 4 * (tw * m))) else ?r ! j)"
      unfolding row_def by blast+
    from True have mn: "min (Suc m) th = Suc m" "min m th = m" by simp_all
    from True have "tw * Suc m \<le> tw * th" by (intro mult_le_mono2) simp
    then have inb: "4 * (tw * m + min w tw) \<le> length b" using dst by (simp add: min_def)
    have A: "row ?r m ! j = d ! (4 * (w * y) + (j - 4 * (tw * y)))"
      if "y < Suc m" "4 * (tw * y) \<le> j" "j < 4 * (tw * y + min w tw)" for y j
    proof (cases "y = m")
      case eq: True
      with that inb IH(1) have "j < length ?r" by simp
      from if_then_eq[OF row(2)[OF this]] that(2,3) eq show ?thesis by blast
    next
      case False
      with that have ym: "y < m" by simp
      then have "tw * Suc y \<le> tw * m" by (intro mult_le_mono2) simp
      with that have lt: "j < 4 * (tw * m)" by (simp add: min_def split: if_splits)
      then have notin: "\<not> (4 * (tw * m) \<le> j \<and> j < 4 * (tw * m + min w tw))" by simp
      from lt inb IH(1) have "j < length ?r" by simp
      from if_else_eq[OF row(2)[OF this] notin] have "row ?r m ! j = ?r ! j" .
      also from ym mn have "y < min m th" by simp
      from IH(2)[OF this that(2,3)] have "?r ! j = d ! (4 * (w * y) + (j - 4 * (tw * y)))" .
      finally show ?thesis .
    qed
    have B: "row ?r m ! j = b ! j"
      if "j < length b" "\<forall>y < Suc m. \<not> (4 * (tw * y) \<le> j \<and> j < 4 * (tw * y + min w tw))" for j
    proof -
      from that(2) have notin: "\<not> (4 * (tw * m) \<le> j \<and> j < 4 * (tw * m + min w tw))" by blast
      from that(1) IH(1) have "j < length ?r" by simp
      from if_else_eq[OF row(2)[OF this] notin] have "row ?r m ! j = ?r ! j" .
      also from that(2) mn have "\<forall>y < min m th. \<not> (4 * (tw * y) \<le> j \<and> j < 4 * (tw * y + min w tw))"
        by simp
      from IH(3)[OF that(1) this] have "?r ! j = b ! j" .
      finally show ?thesis .
    qed
    have L: "length (row ?r m) = length b" using row(1) IH(1) by simp
    have A': "\<forall>y < Suc m. \<forall>j. 4 * (tw * y) \<le> j \<and> j < 4 * (tw * y + min w tw) \<longrightarrow>
            row ?r m ! j = d ! (4 * (w * y) + (j - 4 * (tw * y)))"
      using A by blast
    have B': "\<forall>j < length b. (\<forall>y < Suc m. \<not> (4 * (tw * y) \<le> j \<and> j < 4 * (tw * y + min w tw))) \<longrightarrow>
            row ?r m ! j = b ! j"
      using B by blast
    show ?thesis unfolding step mn by (rule conjI[OF L conjI[OF A' B']])
  qed
qed


lemma pixel_eqI:
  assumes "4 * k + 4 \<le> length r" "4 * k' + 4 \<le> length d" "\<And>c. c < 4 \<Longrightarrow> r ! (4 * k + c) = d ! (4 * k' + c)"
  shows "take 4 (drop (4 * k) r) = take 4 (drop (4 * k') d)"
  using assms by (intro nth_equalityI) simp_all

lemma pixel_whiteI:
  assumes "4 * k + 4 \<le> length r" "\<And>c. c < 4 \<Longrightarrow> r ! (4 * k + c) = 255"
  shows "take 4 (drop (4 * k) r) = white"
proof -
  have "take 4 (drop (4 * k) r) = replicate 4 255"
    using assms by (intro nth_equalityI) simp_all
  then show ?thesis by (simp add: white_def numeral_eq_Suc)
qed

lemma padImage_pads:
  assumes wf: "wellFormed img"
    and ne: "width img \<noteq> tw \<or> height img \<noteq> th"
    and pos: "0 < tw" "0 < th"
    and small: "tw * th \<le> 2 ^ 29" "width img * height img \<le> 2 ^ 29"
  shows "\<exists>padded. padImage img tw th = Inr padded \<and> width padded = tw \<and> height padded = th \<and>
           wellFormed padded \<and>
           (\<forall>x < tw. \<forall>y < th. pixelAt padded x y =
              (if x < width img \<and> y < height img then pixelAt img x y else white))"
proof -
  define w h d where "w = width img" and "h = height img" and "d = data img"
  define b where "b = replicate (4 * (tw * th)) (255 :: byte)"
  define r where "r = copyOnto img tw th b"
  from wf have lend: "length d = 4 * (w * h)" by (simp add: wellFormed_def w_def h_def d_def)
  have lenb: "length b = 4 * (tw * th)" by (simp add: b_def)
  from small have sm: "w * h \<le> 2 ^ 29" by (simp add: w_def h_def)
  have fill: "fillWhite tw th (replicate (4 * tw * th) 0) = b"
    using fillWhite_white[OF small(1), of "replicate (4 * tw * th) 0"] by (simp add: b_def)
  from ne pos have pad: "padImage img tw th = Inr \<lparr>width = tw, height = th, data = r\<rparr>"
    by (auto simp: padImage_def newPNG_def fill r_def)
  note loops = copyOnto_prefix[OF order_refl lend sm lenb small(1)]
  have r_eq: "r = foldl (\<lambda>b y. foldl (\<lambda>b x. if x < tw \<and> y < th
                   then copyPixel d (shl2 (int w * int y + int x)) (shl2 (int tw * int y + int x)) b
                   else b) b [0..<w]) b [0..<h]"
    unfolding r_def copyOnto_def w_def h_def d_def ..
  from loops have lenr: "length r = 4 * (tw * th)"
    and copied: "\<And>y j. y < min h th \<Longrightarrow> 4 * (tw * y) \<le> j \<Longrightarrow> j < 4 * (tw * y + min w tw) \<Longrightarrow>
                   r ! j = d ! (4 * (w * y) + (j - 4 * (tw * y)))"
    and kept: "\<And>j. j < length b \<Longrightarrow>
                   \<forall>y < min h th. \<not> (4 * (tw * y) \<le> j \<and> j < 4 * (tw * y + min w tw)) \<Longrightarrow> r ! j = b ! j"
    unfolding r_eq[symmetric] lenb by blast+
  have px: "pixelAt \<lparr>width = tw, height = th, data = r\<rparr> x y =
              (if x < w \<and> y < h then pixelAt img x y else white)"
    if x: "x < tw" and y: "y < th" for x y
  proof -
    from y have "tw * Suc y \<le> tw * th" by (intro mult_le_mono2) simp
    with x have inr: "4 * (tw * y + x) + 4 \<le> length r" by (simp add: lenr)
    show ?thesis
    proof (cases "x < w \<and> y < h")
      case True
      then have "w * Suc y \<le> w * h" by (intro mult_le_mono2) simp
      with True have ind: "4 * (w * y + x) + 4 \<le> length d" by (simp add: lend)
      have "r ! (4 * (tw * y + x) + c) = d ! (4 * (w * y + x) + c)" if "c < 4" for c
      proof -
        from True y have "y < min h th" by simp
        moreover have "4 * (tw * y) \<le> 4 * (tw * y + x) + c" by simp
        moreover have "4 * (tw * y + x) + c < 4 * (tw * y + min w tw)"
        proof -
          from True x have "Suc x \<le> min w tw" by simp
          then have "4 * Suc x \<le> 4 * min w tw" by (rule mult_le_mono2)
          with that show ?thesis by simp
        qed
        ultimately have "r ! (4 * (tw * y + x) + c) = d ! (4 * (w * y) + (4 * (tw * y + x) + c - 4 * (tw * y)))"
          by (rule copied)
        then show ?thesis by (simp add: algebra_simps)
      qed
      from pixel_eqI[OF inr ind this] True show ?thesis
        by (simp add: pixelAt_def w_def d_def)
    next
      case False
      have "r ! (4 * (tw * y + x) + c) = 255" if c: "c < 4" for c
      proof -
        let ?j = "4 * (tw * y + x) + c"
        from inr c have jb: "?j < length b" by (simp add: lenr lenb)
        have "\<not> (4 * (tw * y') \<le> ?j \<and> ?j < 4 * (tw * y' + min w tw))" if y': "y' < min h th" for y'
        proof
          assume a: "4 * (tw * y') \<le> ?j \<and> ?j < 4 * (tw * y' + min w tw)"
          have "y' = y"
          proof (rule ccontr)
            assume "y' \<noteq> y"
            then consider "y' < y" | "y < y'" by linarith
            then show False
            proof cases
              case 1
              then have "tw * Suc y' \<le> tw * y" by (intro mult_le_mono2) simp
              with a show False by (simp add: min_def split: if_splits)
            next
              case 2
              then have "tw * Suc y \<le> tw * y'" by (intro mult_le_mono2) simp
              with a x c show False by simp
            qed
          qed
          with a have "4 * x + c < 4 * min w tw" by simp
          then have "x < min w tw" by linarith
          with \<open>y' = y\<close> y' False show False by simp
        qed
        then have "\<forall>y' < min h th. \<not> (4 * (tw * y') \<le> ?j \<and> ?j < 4 * (tw * y' + min w tw))" by blast
        from kept[OF jb this] jb show ?thesis by (simp add: b_def)
      qed
      from pixel_whiteI[OF inr this]
      have "pixelAt \<lparr>width = tw, height = th, data = r\<rparr> x y = white" by (simp add: pixelAt_def)
      with False show ?thesis by (simp only: if_False)
    qed
  qed
  have "wellFormed \<lparr>width = tw, height = th, data = r\<rparr>" by (simp add: wellFormed_def lenr)
  with pad px show ?thesis by (auto simp: w_def h_def)
qed


text \<open>
  \<^verbatim>\<open>padImage\<close> of \<^verbatim>\<open>compare-screenshots.ts\<close>, for a target at least as wide and as high
  as the image (the script passes the larger width and the larger height of two images):
  the image of the target size whose pixels are those of the source in the centred
  rectangle and white elsewhere. The two loops are a list of pixel copies with disjoint
  destinations.
\<close>

lemma foldl_copyPixel:
  fixes src b :: "byte list" and ps :: "(nat \<times> nat) list"
  assumes src: "\<forall>(s, d) \<in> set ps. s + 4 \<le> length src"
  defines "r \<equiv> foldl (\<lambda>b (s, d). copyPixel src (int s) (int d) b) b ps"
  shows "length r = length b"
    and "\<And>j. j < length b \<Longrightarrow> \<forall>(s, d) \<in> set ps. \<not> (d \<le> j \<and> j < d + 4) \<Longrightarrow> r ! j = b ! j"
    and "\<And>j s d. j < length b \<Longrightarrow> (s, d) \<in> set ps \<Longrightarrow> d \<le> j \<Longrightarrow> j < d + 4 \<Longrightarrow>
           \<forall>(s', d') \<in> set ps. d' \<le> j \<and> j < d' + 4 \<longrightarrow> s' + (j - d') = s + (j - d) \<Longrightarrow>
           r ! j = src ! (s + (j - d))"
proof -
  let ?f = "\<lambda>b (s, d). copyPixel src (int s) (int d) b"
  have "length (foldl ?f b ps) = length b \<and>
        (\<forall>j < length b. (\<forall>(s, d) \<in> set ps. \<not> (d \<le> j \<and> j < d + 4)) \<longrightarrow> foldl ?f b ps ! j = b ! j) \<and>
        (\<forall>j < length b. \<forall>(s, d) \<in> set ps. d \<le> j \<and> j < d + 4 \<and>
           (\<forall>(s', d') \<in> set ps. d' \<le> j \<and> j < d' + 4 \<longrightarrow> s' + (j - d') = s + (j - d)) \<longrightarrow>
           foldl ?f b ps ! j = src ! (s + (j - d)))"
    using src
  proof (induction ps rule: rev_induct)
    case Nil
    then show ?case by simp
  next
    case (snoc p ps)
    obtain s0 d0 where p: "p = (s0, d0)" by (cases p)
    let ?q = "foldl ?f b ps"
    from snoc.prems have src': "\<forall>(s, d) \<in> set ps. s + 4 \<le> length src" and s0: "s0 + 4 \<le> length src"
      by (auto simp: p)
    from snoc.IH[OF src'] have len: "length ?q = length b"
      and keep: "\<And>j. j < length b \<Longrightarrow> \<forall>(s, d) \<in> set ps. \<not> (d \<le> j \<and> j < d + 4) \<Longrightarrow> ?q ! j = b ! j"
      and copy: "\<And>j s d. j < length b \<Longrightarrow> (s, d) \<in> set ps \<Longrightarrow> d \<le> j \<Longrightarrow> j < d + 4 \<Longrightarrow>
           \<forall>(s', d') \<in> set ps. d' \<le> j \<and> j < d' + 4 \<longrightarrow> s' + (j - d') = s + (j - d) \<Longrightarrow>
           ?q ! j = src ! (s + (j - d))"
      by blast+
    have step: "foldl ?f b (ps @ [p]) = copyPixel src (int s0) (int d0) ?q" by (simp add: p)
    have nth: "copyPixel src (int s0) (int d0) ?q ! j =
                 (if d0 \<le> j \<and> j < d0 + 4 then src ! (s0 + (j - d0)) else ?q ! j)"
      if "j < length b" for j
      using nth_copyPixel[of j ?q s0 src d0] that len s0 by simp
    have A: "copyPixel src (int s0) (int d0) ?q ! j = b ! j"
      if j: "j < length b" and no: "\<forall>(s, d) \<in> set (ps @ [p]). \<not> (d \<le> j \<and> j < d + 4)" for j
    proof -
      from no have "\<not> (d0 \<le> j \<and> j < d0 + 4)" by (auto simp: p)
      with nth[OF j] have "copyPixel src (int s0) (int d0) ?q ! j = ?q ! j" by simp
      also from no have "\<forall>(s, d) \<in> set ps. \<not> (d \<le> j \<and> j < d + 4)" by auto
      from keep[OF j this] have "?q ! j = b ! j" .
      finally show ?thesis .
    qed
    have B: "copyPixel src (int s0) (int d0) ?q ! j = src ! (s + (j - d))"
      if j: "j < length b" and mem: "(s, d) \<in> set (ps @ [p])" and cov: "d \<le> j" "j < d + 4"
        and cons: "\<forall>(s', d') \<in> set (ps @ [p]). d' \<le> j \<and> j < d' + 4 \<longrightarrow> s' + (j - d') = s + (j - d)"
      for j s d
    proof (cases "d0 \<le> j \<and> j < d0 + 4")
      case True
      with cons have "s0 + (j - d0) = s + (j - d)" by (auto simp: p)
      with nth[OF j] True show ?thesis by simp
    next
      case False
      with mem cov have mem': "(s, d) \<in> set ps" by (auto simp: p)
      from cons have "\<forall>(s', d') \<in> set ps. d' \<le> j \<and> j < d' + 4 \<longrightarrow> s' + (j - d') = s + (j - d)" by auto
      from copy[OF j mem' cov this] nth[OF j] False show ?thesis by simp
    qed
    show ?case unfolding step using len A B by (simp only: length_copyPixel) blast
  qed
  then show "length r = length b"
    and "\<And>j. j < length b \<Longrightarrow> \<forall>(s, d) \<in> set ps. \<not> (d \<le> j \<and> j < d + 4) \<Longrightarrow> r ! j = b ! j"
    and "\<And>j s d. j < length b \<Longrightarrow> (s, d) \<in> set ps \<Longrightarrow> d \<le> j \<Longrightarrow> j < d + 4 \<Longrightarrow>
           \<forall>(s', d') \<in> set ps. d' \<le> j \<and> j < d' + 4 \<longrightarrow> s' + (j - d') = s + (j - d) \<Longrightarrow>
           r ! j = src ! (s + (j - d))"
    unfolding r_def by blast+
qed


lemma foldl_concat_rows: "foldl f a (concat xss) = foldl (foldl f) a xss"
  by (induction xss arbitrary: a) simp_all

lemma padImage_cs_data:
  assumes ne: "width img \<noteq> tw \<or> height img \<noteq> th" and le: "width img \<le> tw" "height img \<le> th"
  shows "padImage_cs img tw th = \<lparr>width = tw, height = th, data =
      foldl (\<lambda>b (s, d). copyPixel (data img) (int s) (int d) b) (replicate (tw * th * 4) 255)
        (concat (map (\<lambda>y. map (\<lambda>x. (4 * (y * width img + x),
                                      4 * ((y + (th - height img) div 2) * tw + (x + (tw - width img) div 2))))
                             [0..<width img]) [0..<height img]))\<rparr>"
proof -
  from le have ox: "(int tw - int (width img)) div 2 = int ((tw - width img) div 2)"
    and oy: "(int th - int (height img)) div 2 = int ((th - height img) div 2)"
    by (simp_all add: of_nat_diff zdiv_int)
  have s: "(int y * int (width img) + int x) * 4 = int (4 * (y * width img + x))" for x y by simp
  have d: "((int y + int oy) * int tw + (int x + int ox)) * 4 = int (4 * ((y + oy) * tw + (x + ox)))"
    for x y ox oy by simp
  from ne have n: "(width img = tw \<and> height img = th) = False" by blast
  show ?thesis
    unfolding padImage_cs_def Let_def ox oy s d n
    by (simp only: foldl_concat_rows foldl_map prod.case if_False)
qed

lemma row_unique:
  fixes a a' b b' tw :: nat
  assumes "a * tw + b = a' * tw + b'" "b < tw" "b' < tw"
  shows "a = a' \<and> b = b'"
proof -
  from assms(2) have "(a * tw + b) div tw = a" "(a * tw + b) mod tw = b" by simp_all
  moreover from assms(3) have "(a' * tw + b') div tw = a'" "(a' * tw + b') mod tw = b'" by simp_all
  ultimately show ?thesis using assms(1) by metis
qed

lemma padImage_cs_pads:
  assumes wf: "wellFormed img"
    and ne: "width img \<noteq> tw \<or> height img \<noteq> th"
    and le: "width img \<le> tw" "height img \<le> th"
  shows "width (padImage_cs img tw th) = tw \<and> height (padImage_cs img tw th) = th \<and>
         wellFormed (padImage_cs img tw th) \<and>
         (\<forall>x < tw. \<forall>y < th. pixelAt (padImage_cs img tw th) x y =
            (if (tw - width img) div 2 \<le> x \<and> x < (tw - width img) div 2 + width img \<and>
                (th - height img) div 2 \<le> y \<and> y < (th - height img) div 2 + height img
             then pixelAt img (x - (tw - width img) div 2) (y - (th - height img) div 2)
             else white))"
proof -
  define w h d where "w = width img" and "h = height img" and "d = data img"
  define ox oy where "ox = (tw - w) div 2" and "oy = (th - h) div 2"
  define ps where "ps = concat (map (\<lambda>y. map (\<lambda>x. (4 * (y * w + x), 4 * ((y + oy) * tw + (x + ox))))
                             [0..<w]) [0..<h])"
  define b where "b = replicate (tw * th * 4) (255 :: byte)"
  define r where "r = foldl (\<lambda>b (s, d'). copyPixel d (int s) (int d') b) b ps"
  from wf have lend: "length d = 4 * (w * h)" by (simp add: wellFormed_def w_def h_def d_def)
  have lenb: "length b = 4 * (tw * th)" by (simp add: b_def)
  from le have oxw: "ox + w \<le> tw" and oyh: "oy + h \<le> th" by (simp_all add: ox_def oy_def w_def h_def)
  have pad: "padImage_cs img tw th = \<lparr>width = tw, height = th, data = r\<rparr>"
    using padImage_cs_data[OF ne le] by (simp add: r_def b_def ps_def w_def h_def d_def ox_def oy_def)
  have mem: "(s, d') \<in> set ps \<longleftrightarrow> (\<exists>y < h. \<exists>x < w. s = 4 * (y * w + x) \<and> d' = 4 * ((y + oy) * tw + (x + ox)))"
    for s d' unfolding ps_def by (simp only: set_concat set_map set_upt) force
  have srcb: "\<forall>(s, d') \<in> set ps. s + 4 \<le> length d"
  proof -
    have "4 * (y * w + x) + 4 \<le> length d" if "y < h" "x < w" for x y
    proof -
      from that have "Suc y * w \<le> h * w" by (intro mult_le_mono1) simp
      with that show ?thesis by (simp add: lend algebra_simps)
    qed
    then show ?thesis by (auto simp: mem)
  qed
  note fold = foldl_copyPixel[OF srcb, where b = b, folded r_def]
  have lenr: "length r = 4 * (tw * th)" using fold(1) lenb by simp
  have cover: "y2 + oy = y \<and> x2 + ox = x"
    if "4 * ((y2 + oy) * tw + (x2 + ox)) \<le> 4 * (tw * y + x) + c"
       "4 * (tw * y + x) + c < 4 * ((y2 + oy) * tw + (x2 + ox)) + 4" "c < 4" "x < tw" "x2 < w"
    for x y x2 y2 c
  proof -
    from that(1,2,3) have "(y2 + oy) * tw + (x2 + ox) = y * tw + x" by (simp add: mult.commute)
    moreover from that(5) oxw have "x2 + ox < tw" by simp
    ultimately show ?thesis using that(4) by (intro row_unique)
  qed
  have px: "pixelAt \<lparr>width = tw, height = th, data = r\<rparr> x y =
              (if ox \<le> x \<and> x < ox + w \<and> oy \<le> y \<and> y < oy + h
               then pixelAt img (x - ox) (y - oy) else white)"
    if x: "x < tw" and y: "y < th" for x y
  proof -
    from y have "tw * Suc y \<le> tw * th" by (intro mult_le_mono2) simp
    with x have inr: "4 * (tw * y + x) + 4 \<le> length r" by (simp add: lenr)
    show ?thesis
    proof (cases "ox \<le> x \<and> x < ox + w \<and> oy \<le> y \<and> y < oy + h")
      case True
      define x0 y0 where "x0 = x - ox" and "y0 = y - oy"
      from True have xy0: "x0 < w" "y0 < h" "x0 + ox = x" "y0 + oy = y"
        unfolding x0_def y0_def by linarith+
      from xy0 have "w * Suc y0 \<le> w * h" by (intro mult_le_mono2) simp
      with xy0 have ind: "4 * (w * y0 + x0) + 4 \<le> length d" by (simp add: lend)
      have "r ! (4 * (tw * y + x) + c) = d ! (4 * (w * y0 + x0) + c)" if c: "c < 4" for c
      proof -
        let ?j = "4 * (tw * y + x) + c"
        let ?s = "4 * (y0 * w + x0)" and ?d = "4 * ((y0 + oy) * tw + (x0 + ox))"
        have dj: "?d = 4 * (tw * y + x)" using xy0 by (simp add: mult.commute)
        from inr c have jb: "?j < length b" by (simp add: lenr lenb)
        from xy0 have m: "(?s, ?d) \<in> set ps" unfolding mem by blast
        have c1: "?d \<le> ?j" and c2: "?j < ?d + 4" using c unfolding dj by simp_all
        have cons: "\<forall>(s', d') \<in> set ps. d' \<le> ?j \<and> ?j < d' + 4 \<longrightarrow> s' + (?j - d') = ?s + (?j - ?d)"
        proof (clarify)
          fix s' d' assume m': "(s', d') \<in> set ps" and cv: "d' \<le> ?j" "?j < d' + 4"
          from m' obtain y2 x2 where yx: "y2 < h" "x2 < w" "s' = 4 * (y2 * w + x2)"
            "d' = 4 * ((y2 + oy) * tw + (x2 + ox))" unfolding mem by blast
          from cover[OF cv[unfolded yx(4)] c x yx(2)] xy0 have "y2 = y0" "x2 = x0" by simp_all
          with yx show "s' + (?j - d') = ?s + (?j - ?d)" by simp
        qed
        from fold(3)[OF jb m c1 c2 cons] have "r ! ?j = d ! (?s + (?j - ?d))" .
        then show ?thesis unfolding dj by (simp add: mult.commute)
      qed
      from pixel_eqI[OF inr ind this] True show ?thesis
        by (simp add: pixelAt_def w_def d_def x0_def y0_def)
    next
      case False
      have "r ! (4 * (tw * y + x) + c) = 255" if c: "c < 4" for c
      proof -
        let ?j = "4 * (tw * y + x) + c"
        from inr c have jb: "?j < length b" by (simp add: lenr lenb)
        have no: "\<forall>(s', d') \<in> set ps. \<not> (d' \<le> ?j \<and> ?j < d' + 4)"
        proof (clarify)
          fix s' d' assume m': "(s', d') \<in> set ps" and cv: "d' \<le> ?j" "?j < d' + 4"
          from m' obtain y2 x2 where yx: "y2 < h" "x2 < w" "s' = 4 * (y2 * w + x2)"
            "d' = 4 * ((y2 + oy) * tw + (x2 + ox))" unfolding mem by blast
          from cover[OF cv[unfolded yx(4)] c x yx(2)] have "y2 + oy = y" "x2 + ox = x" by simp_all
          with yx(1,2) False show False by auto
        qed
        from fold(2)[OF jb no] jb show ?thesis by (simp add: b_def)
      qed
      from pixel_whiteI[OF inr this]
      have "pixelAt \<lparr>width = tw, height = th, data = r\<rparr> x y = white" by (simp add: pixelAt_def)
      with False show ?thesis by (simp only: if_False)
    qed
  qed
  have "wellFormed \<lparr>width = tw, height = th, data = r\<rparr>" by (simp add: wellFormed_def lenr)
  with pad px show ?thesis by (simp add: w_def h_def ox_def oy_def)
qed


text \<open>
  \<^verbatim>\<open>padImage\<close> of \<^verbatim>\<open>compare.ts\<close> is defined but has no caller
  (\<^verbatim>\<open>compareScreenshots\<close> of that script hands the decoded buffers to the differ as they
  are). Taken alone it would leave the padding as the PNG constructor made it, four zero
  bytes a pixel, where \<^verbatim>\<open>padImage\<close> of \<^verbatim>\<open>compare_optimized.ts\<close> writes white.
\<close>

lemma padImage_compare_keeps_zero_fill:
  "padImage_compare redImage 2 1 =
     Inr \<lparr>width = 2, height = 1, data = [255, 0, 0, 255, 0, 0, 0, 0]\<rparr> \<and>
   padImage redImage 2 1 =
     Inr \<lparr>width = 2, height = 1, data = [255, 0, 0, 255, 255, 255, 255, 255]\<rparr>"
  by code_simp

lemma length_foldl:
  assumes "\<And>b x. length (f b x) = length b"
  shows "length (foldl f b xs) = length b"
  by (induction xs arbitrary: b) (simp_all add: assms)

lemma length_fillWhite: "length (fillWhite tw th b) = length b"
  unfolding fillWhite_def by (intro length_foldl) simp

lemma length_copyOnto: "length (copyOnto img tw th b) = length b"
  unfolding copyOnto_def by (intro length_foldl) simp

lemma padImage_size:
  assumes "wellFormed img" "padImage img w h = Inr padded"
  shows "width padded = w \<and> height padded = h \<and> length (data padded) = w * h * 4"
proof (cases "width img = w \<and> height img = h")
  case True
  with assms show ?thesis by (auto simp: padImage_def wellFormed_def)
next
  case False
  with assms(2) show ?thesis
    by (auto simp: padImage_def newPNG_def length_copyOnto length_fillWhite split: if_splits)
qed

lemma padImage_cs_size:
  assumes "wellFormed img"
  shows "width (padImage_cs img w h) = w \<and> height (padImage_cs img w h) = h \<and>
         length (data (padImage_cs img w h)) = w * h * 4"
proof (cases "width img = w \<and> height img = h")
  case True
  with assms show ?thesis by (auto simp: padImage_cs_def wellFormed_def)
next
  case False
  then have "padImage_cs img w h =
      \<lparr>width = w, height = h,
       data = foldl (\<lambda>b y. foldl (\<lambda>b x.
                 copyPixel (data img) ((int y * int (width img) + int x) * 4)
                   (((int y + (int h - int (height img)) div 2) * int w +
                     (int x + (int w - int (width img)) div 2)) * 4) b)
               b [0..<width img])
             (replicate (w * h * 4) 255) [0..<height img]\<rparr>"
    by (auto simp: padImage_cs_def Let_def)
  then show ?thesis by (simp add: length_foldl)
qed

lemma operands_padded_to_max:
  assumes "wellFormed img1" "wellFormed img2"
  shows "pixelmatchArgs img1 img2 = Inr (d1, d2, w, h) \<Longrightarrow>
           w = max (width img1) (width img2) \<and> h = max (height img1) (height img2) \<and>
           length d1 = w * h * 4 \<and> length d2 = w * h * 4"
    and "pixelmatchArgs_cs img1 img2 = (d1, d2, w, h) \<Longrightarrow>
           w = max (width img1) (width img2) \<and> h = max (height img1) (height img2) \<and>
           length d1 = w * h * 4 \<and> length d2 = w * h * 4"
proof -
  assume a: "pixelmatchArgs img1 img2 = Inr (d1, d2, w, h)"
  let ?w = "max (width img1) (width img2)" and ?h = "max (height img1) (height img2)"
  from a obtain p1 p2 where p: "padImage img1 ?w ?h = Inr p1" "padImage img2 ?w ?h = Inr p2"
    and eq: "d1 = data p1" "d2 = data p2" "w = ?w" "h = ?h"
    by (auto simp: pixelmatchArgs_def Let_def split: sum.splits)
  from padImage_size[OF assms(1) p(1)] padImage_size[OF assms(2) p(2)] eq
  show "w = max (width img1) (width img2) \<and> h = max (height img1) (height img2) \<and>
           length d1 = w * h * 4 \<and> length d2 = w * h * 4" by simp
next
  assume a: "pixelmatchArgs_cs img1 img2 = (d1, d2, w, h)"
  then have eq: "w = max (width img1) (width img2)" "h = max (height img1) (height img2)"
    "d1 = data (padImage_cs img1 w h)" "d2 = data (padImage_cs img2 w h)"
    by (auto simp: pixelmatchArgs_cs_def Let_def)
  from padImage_cs_size[OF assms(1), of w h] padImage_cs_size[OF assms(2), of w h] eq
  show "w = max (width img1) (width img2) \<and> h = max (height img1) (height img2) \<and>
           length d1 = w * h * 4 \<and> length d2 = w * h * 4" by simp
qed

subsection \<open>The results of the loop of compare.ts\<close>

lemma mainLoop_compare_isDifferent:
  "isDifferent (mainLoop_compare u e env) =
     (e = Both \<and> devShotExists env \<and> prodShotExists env \<and>
      isDifferent (compareScreenshots_compare (devImage env) (prodImage env) (diffWritten env)))"
  by (cases e; auto simp add: mainLoop_compare_def Let_def)

lemma mainLoop_compare_diffPixels:
  "diffPixels (mainLoop_compare u e env) =
     (if e = Both \<and> devShotExists env \<and> prodShotExists env
      then diffPixels (compareScreenshots_compare (devImage env) (prodImage env) (diffWritten env))
      else Num 0)"
  by (cases e; simp add: mainLoop_compare_def Let_def)

lemma mainLoop_compare_error:
  "error (mainLoop_compare u e env) =
     (if e \<noteq> Prod \<and> \<not> devNavigated env
      then (if e \<noteq> Dev \<and> \<not> prodNavigated env
            then Some ''Failed to navigate to dev URL; Failed to navigate to prod URL''
            else Some ''Failed to navigate to dev URL'')
      else (if e \<noteq> Dev \<and> \<not> prodNavigated env
            then Some ''Failed to navigate to prod URL'' else None))"
  by (cases e; simp add: mainLoop_compare_def Let_def)

lemma mainLoop_compare_status:
  "statusOf (mainLoop_compare u e env) = Passed \<longleftrightarrow>
     error (mainLoop_compare u e env) = None \<and> \<not> isDifferent (mainLoop_compare u e env)"
  unfolding statusOf_def mainLoop_compare_error by simp

text \<open>
  Where a comparison runs, the flag is the count's: \<open>isDifferent\<close> is false (\<open>match\<close> is
  true) iff the count is 0 and the comparison ended without an error.
\<close>

lemma matched_iff_when_compared:
  "(\<not> isDifferent (compareScreenshots_compare r1 r2 written) \<longleftrightarrow>
      diffPixels (compareScreenshots_compare r1 r2 written) = Num 0 \<and>
      \<not> isl (tryCompare_compare r1 r2 written)) \<and>
   (\<not> isDifferent (compareScreenshots_cs r1 r2 written) \<longleftrightarrow>
      diffPixels (compareScreenshots_cs r1 r2 written) = Num 0 \<and>
      \<not> isl (tryCompare_cs r1 r2 written)) \<and>
   (task w i urlPath = Inr (Some r) \<longrightarrow>
      (match r \<longleftrightarrow> numDiffPixels r = 0) \<and>
      (\<exists>a\<in>{1, 2, 3}. tryAttempt (attemptOf w i a) (pathsOf urlPath) = Inr (numDiffPixels r, diffPath r)))"
proof -
  have a: "\<not> isDifferent (compareScreenshots_compare r1 r2 written) \<longleftrightarrow>
      diffPixels (compareScreenshots_compare r1 r2 written) = Num 0 \<and>
      \<not> isl (tryCompare_compare r1 r2 written)"
    by (cases "tryCompare_compare r1 r2 written") (simp_all add: compareScreenshots_compare_def)
  have b: "\<not> isDifferent (compareScreenshots_cs r1 r2 written) \<longleftrightarrow>
      diffPixels (compareScreenshots_cs r1 r2 written) = Num 0 \<and>
      \<not> isl (tryCompare_cs r1 r2 written)"
    by (cases "tryCompare_cs r1 r2 written") (simp_all add: compareScreenshots_cs_def)
  have c: "(match r \<longleftrightarrow> numDiffPixels r = 0) \<and>
      (\<exists>a\<in>{1, 2, 3}. tryAttempt (attemptOf w i a) (pathsOf urlPath) = Inr (numDiffPixels r, diffPath r))"
    if "task w i urlPath = Inr (Some r)"
    using task_Some[OF that] by simp
  from a b c show ?thesis by blast
qed

text \<open>
  A page that cannot be navigated to leaves its message in \<open>error\<close>, and the status is
  \<open>error\<close>.
\<close>

lemma unreachable_page_sets_error:
  "mainLoop_compare ''/x'' Both devDown =
     \<lparr>isDifferent = False, diffPixels = Num 0, ScreenshotResult.url = ''/x'',
      devPath = ''test-results/screenshots/dev_1700000000000.png'',
      prodPath = ''test-results/screenshots/prod_1700000000500.png'',
      diffPath = '''', environment = Both, error = Some ''Failed to navigate to dev URL''\<rparr> \<and>
   statusOf (mainLoop_compare ''/x'' Both devDown) = Errored"
  by code_simp

subsection \<open>The claims\<close>

text \<open>
  C1. A result is to be reported as matching only when its count is 0 and no error occurred
  in its capture-and-compare cycle. In the loop of \<^verbatim>\<open>compare.ts\<close> a failed capture goes
  unrecorded: both pages are reached, \<^verbatim>\<open>page.screenshot\<close> of the dev page throws,
  \<^verbatim>\<open>captureScreenshot\<close> returns false and the loop does not read it; no comparison runs,
  and the result keeps \<open>isDifferent = false\<close> and \<open>diffPixels = 0\<close> with no \<open>error\<close>, so
  that its status is \<open>passed\<close>.
\<close>

theorem failed_capture_reported_as_passed:
  "\<not> captureScreenshot (devScreenshot shotFailed) \<and>
   mainLoop_compare ''/x'' Both shotFailed =
     \<lparr>isDifferent = False, diffPixels = Num 0, ScreenshotResult.url = ''/x'',
      devPath = ''test-results/screenshots/dev_1700000000000.png'',
      prodPath = ''test-results/screenshots/prod_1700000000500.png'',
      diffPath = '''', environment = Both, error = None\<rparr> \<and>
   statusOf (mainLoop_compare ''/x'' Both shotFailed) = Passed"
  by code_simp

text \<open>
  C2, as stated, fails: one target whose three attempts fail leaves a result list with
  no entry.
\<close>

theorem results_shorter_than_targets:
  "main First allFail [''/a''] [Resume, Settle 0, Resume] = Report [] (summarize allFail []) \<and>
   length ([] :: ComparisonResult list) < length [''/a'']"
  by code_simp

text \<open>
  C2, amended. When \<^verbatim>\<open>main\<close> reaches its report, the result list holds, in the order
  of the input, exactly one entry for each target one of whose attempts succeeded and
  none for a target whose three attempts failed: it is no longer than the input, as long
  iff no target exhausted its attempts, and free of duplicates when the input is.
\<close>

theorem one_result_per_successful_target:
  assumes "main v w urls evs = Report rs sm"
  shows "map url rs = map snd (filter (\<lambda>(i, u). task w i u \<noteq> Inr None) (enumerate 0 urls)) \<and>
         length rs \<le> length urls \<and>
         (length rs = length urls \<longleftrightarrow> (\<forall>i < length urls. task w i (urls ! i) \<noteq> Inr None)) \<and>
         (distinct urls \<longrightarrow> distinct (map url rs))"
proof -
  let ?P = "\<lambda>(i, u). task w i u \<noteq> Inr None"
  from main_Report[OF assms] obtain out where out: "map Inr out = tasksOf w urls" "rs = filterBoolean out"
    by blast
  from urls_of_results[OF out(1)[unfolded tasksOf_def]] out(2)
  have eq: "map url rs = map snd (filter ?P (enumerate 0 urls))" by simp
  then have len: "length rs = length (filter ?P (enumerate 0 urls))" by (metis length_map)
  have le: "length rs \<le> length urls" unfolding len by (metis length_filter_le length_enumerate)
  have "length rs = length urls \<longleftrightarrow> (\<forall>x\<in>set (enumerate 0 urls). ?P x)"
    unfolding len using length_filter_all[of ?P "enumerate 0 urls"] by simp
  also have "\<dots> \<longleftrightarrow> (\<forall>i < length urls. task w i (urls ! i) \<noteq> Inr None)"
    by (auto simp: in_set_enumerate_eq)
  finally have all: "length rs = length urls \<longleftrightarrow> (\<forall>i < length urls. task w i (urls ! i) \<noteq> Inr None)" .
  have "distinct (map url rs)" if "distinct urls"
    unfolding eq using that by (intro distinct_map_filter) simp
  with eq le all show ?thesis by blast
qed

theorem one_result_per_successful_target_witness:
  "main First sampleWorld [''/a'', ''/b'', ''/c''] [Resume, Resume, Resume, Settle 2, Settle 0, Settle 1, Resume] =
     Report [resultFor ''/a'' ''_a'', resultFor ''/c'' ''_c'']
       \<lparr>totalUrls = 2, avgDuration = Num (3 / 2), totalDuration = 9,
        startTime = 0, endTime = 9001\<rparr> \<and>
   map url [resultFor ''/a'' ''_a'', resultFor ''/c'' ''_c''] =
     map snd (filter (\<lambda>(i, u). task sampleWorld i u \<noteq> Inr None) (enumerate 0 [''/a'', ''/b'', ''/c'']))"
proof -
  have h: "main First sampleWorld [''/a'', ''/b'', ''/c''] [Resume, Resume, Resume, Settle 2, Settle 0, Settle 1, Resume] =
     Report [resultFor ''/a'' ''_a'', resultFor ''/c'' ''_c'']
       \<lparr>totalUrls = 2, avgDuration = Num (3 / 2), totalDuration = 9,
        startTime = 0, endTime = 9001\<rparr>"
    by code_simp
  from one_result_per_successful_target[OF h] h show ?thesis by blast
qed

text \<open>
  C3, as stated, fails: the target whose three attempts fail has no result that could
  carry an error or \<open>match = False\<close>; its task returns null and the report lists the
  other two targets only.
\<close>

theorem exhausted_target_has_no_entry:
  "task sampleWorld 1 ''/b'' = Inr None \<and>
   main Second sampleWorld [''/a'', ''/b'', ''/c''] [Resume, Resume, Resume, Resume, Settle 1, Settle 0, Settle 2] =
     Report [resultFor ''/a'' ''_a'', resultFor ''/c'' ''_c'']
       \<lparr>totalUrls = 2, avgDuration = Num (3 / 2), totalDuration = 9,
        startTime = 0, endTime = 9001\<rparr>"
  by code_simp

text \<open>
  C3, amended. When the capture or the comparison of a target fails at all three
  attempts, the task returns null and no entry is produced for the target; the run is
  not aborted by it (what \<^verbatim>\<open>main\<close> can catch is the rejection of another task, and
  when no other task is rejected every run can be continued to its report), and the
  report holds the results of the remaining targets.
\<close>

theorem exhausted_target_yields_no_result:
  assumes "i < length urls"
    and "\<forall>a\<in>{1, 2, 3}. newPage (attemptOf w i a) = None \<and>
                       isl (tryAttempt (attemptOf w i a) (pathsOf (urls ! i)))"
  shows "task w i (urls ! i) = Inr None \<and>
     (\<forall>e. phase (runWithConcurrencyLimit v (tasksOf w urls) concurrency evs) = Thrown e \<longrightarrow>
          (\<exists>j < length urls. j \<noteq> i \<and> task w j (urls ! j) = Inl e)) \<and>
     ((\<forall>j < length urls. j \<noteq> i \<longrightarrow> \<not> isl (task w j (urls ! j))) \<longrightarrow>
          (\<exists>more rs sm. main v w urls (evs @ more) = Report rs sm)) \<and>
     (\<forall>rs sm. main v w urls evs = Report rs sm \<longrightarrow>
          map url rs = map snd (filter (\<lambda>(j, u). j \<noteq> i \<and> task w j u \<noteq> Inr None) (enumerate 0 urls)))"
proof -
  have none: "task w i (urls ! i) = Inr None" using assms(2) by (rule task_exhausted)
  have thrown: "\<exists>j < length urls. j \<noteq> i \<and> task w j (urls ! j) = Inl e"
    if "phase (runWithConcurrencyLimit v (tasksOf w urls) concurrency evs) = Thrown e" for e
  proof -
    from invariants_run[of "tasksOf w urls" v concurrency evs] that
    obtain j where j: "j < length (tasksOf w urls)" "tasksOf w urls ! j = Inl e"
      by (auto simp: phased_def)
    then have "j < length urls" "task w j (urls ! j) = Inl e"
      by (simp_all add: tasksOf_length tasksOf_nth)
    moreover from this none have "j \<noteq> i" by auto
    ultimately show ?thesis by blast
  qed
  have goes_on: "\<exists>more rs sm. main v w urls (evs @ more) = Report rs sm"
    if "\<forall>j < length urls. j \<noteq> i \<longrightarrow> \<not> isl (task w j (urls ! j))"
  proof -
    from that none have "\<forall>j < length urls. \<not> isl (task w j (urls ! j))"
      by (metis sum.disc(2))
    moreover from assms(1) have "urls \<noteq> []" by auto
    ultimately show ?thesis by (intro main_can_report)
  qed
  have report: "map url rs = map snd (filter (\<lambda>(j, u). j \<noteq> i \<and> task w j u \<noteq> Inr None) (enumerate 0 urls))"
    if "main v w urls evs = Report rs sm" for rs sm
  proof -
    from main_Report[OF that] obtain out where out: "map Inr out = tasksOf w urls" "rs = filterBoolean out"
      by blast
    from urls_of_results[OF out(1)[unfolded tasksOf_def]] out(2)
    have "map url rs = map snd (filter (\<lambda>(j, u). task w j u \<noteq> Inr None) (enumerate 0 urls))" by simp
    moreover have "filter (\<lambda>(j, u). task w j u \<noteq> Inr None) (enumerate 0 urls) =
                   filter (\<lambda>(j, u). j \<noteq> i \<and> task w j u \<noteq> Inr None) (enumerate 0 urls)"
      using none by (intro filter_cong) (auto simp: in_set_enumerate_eq)
    ultimately show ?thesis by simp
  qed
  from none thrown goes_on report show ?thesis by blast
qed

theorem exhausted_target_yields_no_result_witness:
  "(1::nat) < length [''/a'', ''/b'', ''/c''] \<and>
   newPage (attemptOf sampleWorld 1 3) = None \<and>
   isl (tryAttempt (attemptOf sampleWorld 1 3) (pathsOf ([''/a'', ''/b'', ''/c''] ! 1))) \<and>
   task sampleWorld 1 ([''/a'', ''/b'', ''/c''] ! 1) = Inr None"
proof -
  have h1: "(1::nat) < length [''/a'', ''/b'', ''/c'']" by simp
  have h2: "\<forall>a\<in>{1, 2, 3}. newPage (attemptOf sampleWorld 1 a) = None \<and>
       isl (tryAttempt (attemptOf sampleWorld 1 a) (pathsOf ([''/a'', ''/b'', ''/c''] ! 1)))"
    by (simp add: sampleWorld_def timedOut_def goodAttempt_def tryAttempt_def)
  from exhausted_target_yields_no_result[OF h1 h2] h1 h2 show ?thesis by simp
qed

text \<open>
  C4, as stated, fails: when an image cannot be read, \<^verbatim>\<open>compare-screenshots.ts\<close>
  reports \<^verbatim>\<open>diffPixels: Infinity\<close>.
\<close>

theorem diffPixels_counterexample:
  "\<not> nonNegativeInteger (diffPixels (compareScreenshots_cs (Inl UnsupportedFormat) (Inr redImage) None))"
  by code_simp

text \<open>
  C4, amended. For every comparison that ends without an error, \<open>diffPixels\<close> is the
  non-negative integer the differ returned on the two images (padded to their common size
  in \<^verbatim>\<open>compare-screenshots.ts\<close> and \<^verbatim>\<open>compare_optimized.ts\<close>), and it is 0 iff no pixel
  of the one differs from its counterpart in the other under the threshold, which is iff
  \<open>isDifferent\<close> is false. When an error is caught, \<^verbatim>\<open>compare-screenshots.ts\<close> reports
  \<open>Infinity\<close> and \<^verbatim>\<open>compare.ts\<close> reports 0, both with \<open>isDifferent = True\<close>.
\<close>

theorem diffPixels_without_error:
  "(tryCompare_cs r1 r2 written = Inr n \<longrightarrow>
      (\<exists>img1 img2 d1 d2 w h. r1 = Inr img1 \<and> r2 = Inr img2 \<and>
          pixelmatchArgs_cs img1 img2 = (d1, d2, w, h) \<and>
          pixelmatch d1 d2 w h (1 / 10) = Inr n \<and>
          (n = 0 \<longleftrightarrow> list_all (\<lambda>(p, q). \<not> pixelDiffers (1 / 10) p q) (zip (pixels d1) (pixels d2)))) \<and>
      diffPixels (compareScreenshots_cs r1 r2 written) = Num (of_nat n) \<and>
      nonNegativeInteger (diffPixels (compareScreenshots_cs r1 r2 written)) \<and>
      (n = 0 \<longleftrightarrow> \<not> isDifferent (compareScreenshots_cs r1 r2 written))) \<and>
   (tryCompare_compare r1 r2 written = Inr n \<longrightarrow>
      (\<exists>img1 img2 d1 d2 w h. r1 = Inr img1 \<and> r2 = Inr img2 \<and>
          pixelmatchArgs_compare img1 img2 = (d1, d2, w, h) \<and>
          pixelmatch d1 d2 w h (1 / 10) = Inr n \<and>
          (n = 0 \<longleftrightarrow> list_all (\<lambda>(p, q). \<not> pixelDiffers (1 / 10) p q) (zip (pixels d1) (pixels d2)))) \<and>
      diffPixels (compareScreenshots_compare r1 r2 written) = Num (of_nat n) \<and>
      nonNegativeInteger (diffPixels (compareScreenshots_compare r1 r2 written)) \<and>
      (n = 0 \<longleftrightarrow> \<not> isDifferent (compareScreenshots_compare r1 r2 written))) \<and>
   (compareScreenshots r1 r2 written path = Inr (n, p) \<longrightarrow>
      (\<exists>img1 img2 d1 d2 w h. r1 = Inr img1 \<and> r2 = Inr img2 \<and>
          pixelmatchArgs img1 img2 = Inr (d1, d2, w, h) \<and>
          pixelmatch d1 d2 w h (1 / 10) = Inr n \<and>
          (n = 0 \<longleftrightarrow> list_all (\<lambda>(p, q). \<not> pixelDiffers (1 / 10) p q) (zip (pixels d1) (pixels d2))))) \<and>
   (isl (tryCompare_cs r1 r2 written) \<longrightarrow>
      compareScreenshots_cs r1 r2 written = \<lparr>isDifferent = True, diffPixels = PosInfinity\<rparr>) \<and>
   (isl (tryCompare_compare r1 r2 written) \<longrightarrow>
      compareScreenshots_compare r1 r2 written = \<lparr>isDifferent = True, diffPixels = Num 0\<rparr>)"
proof -
  have a: "\<exists>img1 img2 d1 d2 w h. r1 = Inr img1 \<and> r2 = Inr img2 \<and>
          pixelmatchArgs_cs img1 img2 = (d1, d2, w, h) \<and>
          pixelmatch d1 d2 w h (1 / 10) = Inr n \<and>
          (n = 0 \<longleftrightarrow> list_all (\<lambda>(p, q). \<not> pixelDiffers (1 / 10) p q) (zip (pixels d1) (pixels d2)))"
    if "tryCompare_cs r1 r2 written = Inr n"
    using tryCompare_cs_Inr[OF that] pixelmatch_zero by blast
  have b: "\<exists>img1 img2 d1 d2 w h. r1 = Inr img1 \<and> r2 = Inr img2 \<and>
          pixelmatchArgs_compare img1 img2 = (d1, d2, w, h) \<and>
          pixelmatch d1 d2 w h (1 / 10) = Inr n \<and>
          (n = 0 \<longleftrightarrow> list_all (\<lambda>(p, q). \<not> pixelDiffers (1 / 10) p q) (zip (pixels d1) (pixels d2)))"
    if "tryCompare_compare r1 r2 written = Inr n"
    using tryCompare_compare_Inr[OF that] pixelmatch_zero by blast
  have c: "\<exists>img1 img2 d1 d2 w h. r1 = Inr img1 \<and> r2 = Inr img2 \<and>
          pixelmatchArgs img1 img2 = Inr (d1, d2, w, h) \<and>
          pixelmatch d1 d2 w h (1 / 10) = Inr n \<and>
          (n = 0 \<longleftrightarrow> list_all (\<lambda>(p, q). \<not> pixelDiffers (1 / 10) p q) (zip (pixels d1) (pixels d2)))"
    if "compareScreenshots r1 r2 written path = Inr (n, p)"
    using compareScreenshots_Inr[OF that] pixelmatch_zero by blast
  have d: "diffPixels (compareScreenshots_cs r1 r2 written) = Num (of_nat n) \<and>
      nonNegativeInteger (diffPixels (compareScreenshots_cs r1 r2 written)) \<and>
      (n = 0 \<longleftrightarrow> \<not> isDifferent (compareScreenshots_cs r1 r2 written))"
    if "tryCompare_cs r1 r2 written = Inr n"
    using that by (auto simp: compareScreenshots_cs_def nonNegativeInteger_def)
  have e: "diffPixels (compareScreenshots_compare r1 r2 written) = Num (of_nat n) \<and>
      nonNegativeInteger (diffPixels (compareScreenshots_compare r1 r2 written)) \<and>
      (n = 0 \<longleftrightarrow> \<not> isDifferent (compareScreenshots_compare r1 r2 written))"
    if "tryCompare_compare r1 r2 written = Inr n"
    using that by (auto simp: compareScreenshots_compare_def nonNegativeInteger_def)
  have f: "compareScreenshots_cs r1 r2 written = \<lparr>isDifferent = True, diffPixels = PosInfinity\<rparr>"
    if "isl (tryCompare_cs r1 r2 written)"
    using that by (auto simp: compareScreenshots_cs_def isl_def)
  have g: "compareScreenshots_compare r1 r2 written = \<lparr>isDifferent = True, diffPixels = Num 0\<rparr>"
    if "isl (tryCompare_compare r1 r2 written)"
    using that by (auto simp: compareScreenshots_compare_def isl_def)
  show ?thesis
    apply (intro conjI impI)
    subgoal by (rule a)
    subgoal using d by blast
    subgoal using d by blast
    subgoal using d by blast
    subgoal by (rule b)
    subgoal using e by blast
    subgoal using e by blast
    subgoal using e by blast
    subgoal by (rule c)
    subgoal by (rule f)
    subgoal by (rule g)
    done
qed

theorem diffPixels_without_error_witness:
  "tryCompare_cs (Inr redImage) (Inr wideImage) None = Inr 0 \<and>
   tryCompare_compare (Inr redImage) (Inr whiteImage) None = Inr 1 \<and>
   isl (tryCompare_cs (Inl UnsupportedFormat) (Inr redImage) None) \<and>
   isl (tryCompare_compare (Inr redImage) (Inr wideImage) None) \<and>
   pixelmatchArgs_cs redImage wideImage =
     ([255, 0, 0, 255, 255, 255, 255, 255], [255, 0, 0, 255, 255, 255, 255, 255], 2, 1) \<and>
   list_all (\<lambda>(p, q). \<not> pixelDiffers (1 / 10) p q)
     (zip (pixels [255, 0, 0, 255, 255, 255, 255, 255]) (pixels [255, 0, 0, 255, 255, 255, 255, 255])) \<and>
   diffPixels (compareScreenshots_cs (Inr redImage) (Inr wideImage) None) = Num 0 \<and>
   diffPixels (compareScreenshots_compare (Inr redImage) (Inr whiteImage) None) = Num 1 \<and>
   isDifferent (compareScreenshots_compare (Inr redImage) (Inr whiteImage) None) \<and>
   compareScreenshots_compare (Inr redImage) (Inr wideImage) None =
     \<lparr>isDifferent = True, diffPixels = Num 0\<rparr>"
proof -
  have h1: "tryCompare_cs (Inr redImage) (Inr wideImage) None = Inr 0" by code_simp
  have h2: "tryCompare_compare (Inr redImage) (Inr whiteImage) None = Inr 1" by code_simp
  have h3: "isl (tryCompare_cs (Inl UnsupportedFormat) (Inr redImage) None)" by code_simp
  have h4: "isl (tryCompare_compare (Inr redImage) (Inr wideImage) None)" by code_simp
  have args: "pixelmatchArgs_cs redImage wideImage =
     ([255, 0, 0, 255, 255, 255, 255, 255], [255, 0, 0, 255, 255, 255, 255, 255], 2, 1)"
    by code_simp
  from diffPixels_without_error[of "Inr redImage" "Inr wideImage" None 0] h1 args
  have a: "list_all (\<lambda>(p, q). \<not> pixelDiffers (1 / 10) p q)
     (zip (pixels [255, 0, 0, 255, 255, 255, 255, 255]) (pixels [255, 0, 0, 255, 255, 255, 255, 255]))"
    and a': "diffPixels (compareScreenshots_cs (Inr redImage) (Inr wideImage) None) = Num 0"
    by auto
  from diffPixels_without_error[of "Inr redImage" "Inr whiteImage" None 1] h2
  have b: "diffPixels (compareScreenshots_compare (Inr redImage) (Inr whiteImage) None) = Num 1"
    and b': "isDifferent (compareScreenshots_compare (Inr redImage) (Inr whiteImage) None)"
    by auto
  from diffPixels_without_error[of "Inr redImage" "Inr wideImage" None 0] h4
  have c: "compareScreenshots_compare (Inr redImage) (Inr wideImage) None =
     \<lparr>isDifferent = True, diffPixels = Num 0\<rparr>"
    by blast
  from h1 h2 h3 h4 args a a' b b' c show ?thesis by blast
qed



text \<open>
  C6. \<^verbatim>\<open>compareScreenshots\<close> of \<^verbatim>\<open>compare.ts\<close> hands the two decoded buffers to the
  differ unpadded: for a 1x1 and a 2x1 image the operands have 4 and 8 bytes, the differ
  fails, and the failure is reported as a difference of 0 pixels. The same pair in
  \<^verbatim>\<open>compare_optimized.ts\<close> is padded to 2x1 first.
\<close>

theorem differ_called_on_unequal_buffers:
  "pixelmatchArgs_compare redImage wideImage =
     ([255, 0, 0, 255], [255, 0, 0, 255, 255, 255, 255, 255], 2, 1) \<and>
   tryCompare_compare (Inr redImage) (Inr wideImage) None = Inl DimensionMismatch \<and>
   compareScreenshots_compare (Inr redImage) (Inr wideImage) None =
     \<lparr>isDifferent = True, diffPixels = Num 0\<rparr> \<and>
   pixelmatchArgs redImage wideImage =
     Inr ([255, 0, 0, 255, 255, 255, 255, 255], [255, 0, 0, 255, 255, 255, 255, 255], 2, 1)"
  by code_simp

text \<open>
  C7. With no result left (every task returned null), the average duration computed by
  \<^verbatim>\<open>main\<close> is \<^verbatim>\<open>0 / 0\<close>, that is \<open>NaN\<close>, not 0.
\<close>

theorem average_of_no_results_is_NaN:
  "main First allFail [''/a''] [Resume, Settle 0, Resume] =
     Report [] \<lparr>totalUrls = 0, avgDuration = NaN, totalDuration = 9,
        startTime = 0, endTime = 9001\<rparr> \<and>
   averageDuration [] = NaN"
  by code_simp

text \<open>
  C8. Diffing a well-formed image against itself yields 0 differing pixels for every
  threshold \<open>t \<ge> 0\<close>; so do \<^verbatim>\<open>compareScreenshots\<close> of \<^verbatim>\<open>compare_optimized.ts\<close> and of
  \<^verbatim>\<open>compare-screenshots.ts\<close> on twice the same image.
\<close>

theorem diff_identity:
  assumes "0 \<le> t" "wellFormed A"
  shows "pixelmatch (data A) (data A) (width A) (height A) t = Inr 0 \<and>
         compareScreenshots (Inr A) (Inr A) None path = Inr (0, replacePng path) \<and>
         compareScreenshots_cs (Inr A) (Inr A) written = \<lparr>isDifferent = False, diffPixels = Num 0\<rparr>"
proof -
  from assms have pm: "pixelmatch (data A) (data A) (width A) (height A) t = Inr 0"
    by (simp add: pixelmatch_same wellFormed_def)
  from assms(2) have pm': "pixelmatch (data A) (data A) (width A) (height A) (1 / 10) = Inr 0"
    by (simp add: pixelmatch_same wellFormed_def)
  have "pixelmatchArgs A A = Inr (data A, data A, width A, height A)"
    by (simp add: pixelmatchArgs_def padImage_def)
  with pm' have c1: "compareScreenshots (Inr A) (Inr A) None path = Inr (0, replacePng path)"
    by (simp add: compareScreenshots_def)
  have "pixelmatchArgs_cs A A = (data A, data A, width A, height A)"
    by (simp add: pixelmatchArgs_cs_def padImage_cs_def)
  with pm' have "tryCompare_cs (Inr A) (Inr A) written = Inr 0"
    by (simp add: tryCompare_cs_def)
  then have c2: "compareScreenshots_cs (Inr A) (Inr A) written = \<lparr>isDifferent = False, diffPixels = Num 0\<rparr>"
    by (simp add: compareScreenshots_cs_def)
  from pm c1 c2 show ?thesis by blast
qed

theorem diff_identity_witness:
  "(0::rat) \<le> 1 / 10 \<and> wellFormed wideImage \<and>
   pixelmatch (data wideImage) (data wideImage) (width wideImage) (height wideImage) (1 / 10) = Inr 0"
proof -
  have h1: "(0::rat) \<le> 1 / 10" by simp
  have h2: "wellFormed wideImage" by (simp add: wellFormed_def wideImage_def)
  from diff_identity[OF h1 h2] h1 h2 show ?thesis by blast
qed

text \<open>
  C9. With a limit of at least 1, at every point of every run the number of tasks in
  flight is at most the limit; and when the function waits with a full pool and tasks
  still queued, the fulfilment of one running task and the next step of the function
  start the next queued task, while the other running tasks are still pending.
\<close>

theorem in_flight_never_exceeds_limit:
  assumes "1 \<le> limit"
  shows "int (inFlight (runWithConcurrencyLimit v tasks limit evs)) \<le> limit \<and>
    (phase (runWithConcurrencyLimit v tasks limit evs) = Awaiting \<and>
     i \<in> set (executing (runWithConcurrencyLimit v tasks limit evs)) \<and>
     tasks ! i = Inr r \<and>
     started (runWithConcurrencyLimit v tasks limit evs) < length tasks \<longrightarrow>
       started (runWithConcurrencyLimit v tasks limit (evs @ [Settle i, Resume])) =
         started (runWithConcurrencyLimit v tasks limit evs) + 1 \<and>
       promises (runWithConcurrencyLimit v tasks limit (evs @ [Settle i, Resume])) !
         started (runWithConcurrencyLimit v tasks limit evs) = Pending \<and>
       (\<forall>j \<in> set (executing (runWithConcurrencyLimit v tasks limit evs)) - {i}.
          promises (runWithConcurrencyLimit v tasks limit (evs @ [Settle i, Resume])) ! j = Pending))"
proof -
  let ?s = "runWithConcurrencyLimit v tasks limit evs"
  have inv: "structural tasks ?s" "phased tasks ?s" using invariants_run by blast+
  have "inFlight ?s \<le> length (executing ?s)" using inv(1) by (rule inFlight_le_executing)
  moreover have "int (length (executing ?s)) \<le> limit"
    using bounded_run[OF assms, of v tasks evs] by (simp add: bounded_def)
  ultimately have first: "int (inFlight ?s) \<le> limit" by linarith
  have second: "started (runWithConcurrencyLimit v tasks limit (evs @ [Settle i, Resume])) = started ?s + 1 \<and>
       promises (runWithConcurrencyLimit v tasks limit (evs @ [Settle i, Resume])) ! started ?s = Pending \<and>
       (\<forall>j \<in> set (executing ?s) - {i}.
          promises (runWithConcurrencyLimit v tasks limit (evs @ [Settle i, Resume])) ! j = Pending)"
    if aw: "phase ?s = Awaiting" and mem: "i \<in> set (executing ?s)" and ful: "tasks ! i = Inr r"
      and more: "started ?s < length tasks"
  proof -
    from inv(1) mem have i: "i < started ?s" by (auto simp: structural_def)
    from inv(2) aw have pend: "\<forall>j\<in>set (executing ?s). promises ?s ! j = Pending"
      by (simp add: phased_def)
    let ?s1 = "?s\<lparr>executing := splice v i (executing ?s),
                   promises := (promises ?s)[i := Fulfilled r], phase := Looping\<rparr>"
    have s1: "settle v tasks i ?s = ?s1"
      using i more pend mem ful aw by (simp add: settle_def Let_def)
    let ?s2 = "?s1\<lparr>started := started ?s1 + 1, results := results ?s1 @ [started ?s1],
                executing := executing ?s1 @ [started ?s1], promises := promises ?s1 @ [Pending]\<rparr>"
    let ?s3 = "runWithConcurrencyLimit v tasks limit (evs @ [Settle i, Resume])"
    obtain ph where ph: "awaitRace ?s2 = ?s2\<lparr>phase := ph\<rparr>" using awaitRace_phase by blast
    have d: "dispatch limit ?s1 = ?s2 \<or> dispatch limit ?s1 = ?s2\<lparr>phase := ph\<rparr>"
      using ph by (simp add: dispatch_def Let_def)
    have "?s3 = dispatch limit ?s1"
      using s1 more by (simp add: runWithConcurrencyLimit_def step_def)
    with d have fields: "started ?s3 = started ?s + 1"
      "promises ?s3 = (promises ?s)[i := Fulfilled r] @ [Pending]"
      by auto
    have len: "length (promises ?s) = started ?s" using inv(1) by (simp add: structural_def)
    have new: "promises ?s3 ! started ?s = Pending"
      using len by (simp add: fields nth_append)
    have others: "promises ?s3 ! j = Pending" if "j \<in> set (executing ?s) - {i}" for j
    proof -
      from that inv(1) have "j < started ?s" "j \<noteq> i" by (auto simp: structural_def)
      moreover from that pend have "promises ?s ! j = Pending" by simp
      ultimately show ?thesis using len by (simp add: fields nth_append)
    qed
    from fields(1) new others show ?thesis by blast
  qed
  from first second show ?thesis by blast
qed

theorem in_flight_never_exceeds_limit_witness:
  "(1::int) \<le> 2 \<and>
   phase (runWithConcurrencyLimit First sampleTasks 2 [Resume, Resume]) = Awaiting \<and>
   1 \<in> set (executing (runWithConcurrencyLimit First sampleTasks 2 [Resume, Resume])) \<and>
   sampleTasks ! 1 = Inr ''b'' \<and>
   started (runWithConcurrencyLimit First sampleTasks 2 [Resume, Resume]) < length sampleTasks \<and>
   int (inFlight (runWithConcurrencyLimit First sampleTasks 2 [Resume, Resume])) \<le> 2 \<and>
   started (runWithConcurrencyLimit First sampleTasks 2 ([Resume, Resume] @ [Settle 1, Resume])) =
     started (runWithConcurrencyLimit First sampleTasks 2 [Resume, Resume]) + 1"
proof -
  have h0: "(1::int) \<le> 2" by simp
  have h1: "phase (runWithConcurrencyLimit First sampleTasks 2 [Resume, Resume]) = Awaiting"
    by code_simp
  have h2: "1 \<in> set (executing (runWithConcurrencyLimit First sampleTasks 2 [Resume, Resume]))"
    by code_simp
  have h3: "sampleTasks ! 1 = Inr ''b''" by code_simp
  have h4: "started (runWithConcurrencyLimit First sampleTasks 2 [Resume, Resume]) < length sampleTasks"
    by code_simp
  from in_flight_never_exceeds_limit[OF h0, of First sampleTasks "[Resume, Resume]" 1 "''b''"]
    h0 h1 h2 h3 h4
  show ?thesis by blast
qed

text \<open>
  C10. Whatever the limit and the order in which the tasks settle, the list returned by
  \<^verbatim>\<open>runWithConcurrencyLimit\<close> has one element per task, the \<open>i\<close>-th being the value of
  the \<open>i\<close>-th task.
\<close>

theorem results_keep_input_order:
  assumes "phase (runWithConcurrencyLimit v tasks limit evs) = Returned out"
  shows "length out = length tasks \<and> (\<forall>i < length tasks. tasks ! i = Inr (out ! i))"
proof -
  from invariants_run[of tasks v limit evs] assms have eq: "map Inr out = tasks"
    by (simp add: phased_def)
  then have "length out = length tasks" by (metis length_map)
  moreover have "tasks ! i = Inr (out ! i)" if "i < length tasks" for i
    using eq that by (metis length_map nth_map)
  ultimately show ?thesis by blast
qed

theorem results_keep_input_order_witness:
  "phase (runWithConcurrencyLimit First sampleTasks 2
            [Resume, Resume, Settle 1, Resume, Settle 2, Settle 0, Resume]) =
     Returned [''a'', ''b'', ''c''] \<and>
   length [''a'', ''b'', ''c''] = length sampleTasks \<and>
   sampleTasks ! 1 = Inr ([''a'', ''b'', ''c''] ! 1)"
proof -
  have h: "phase (runWithConcurrencyLimit First sampleTasks 2
            [Resume, Resume, Settle 1, Resume, Settle 2, Settle 0, Resume]) =
     Returned [''a'', ''b'', ''c'']"
    by code_simp
  have "(1::nat) < length sampleTasks" by (simp add: sampleTasks_def)
  with results_keep_input_order[OF h] h show ?thesis by blast
qed

end
